theory Spec2Isabelle
  imports Main
begin

section \<open>Go values used by tunnel.go\<close>

text \<open>
  The embedding follows \<^verbatim>\<open>tunnel.go\<close> of the Iris Go binding function by function.
  A \<^verbatim>\<open>[]byte\<close> holds bytes; a byte is a \<open>char\<close>, so that a message is a \<open>string\<close>.
\<close>

type_synonym bytes = string

text \<open>
  Go's \<^verbatim>\<open>int\<close> is a 64-bit two's complement integer on the platforms the relay binding
  runs on, and its arithmetic wraps around silently. \<open>go_int\<close> is that wrap-around,
  written out on \<open>int\<close>. It is applied to the credit counter \<^verbatim>\<open>atoiSpace\<close>, which sums
  grants received from the relay. Positions inside a message (\<^verbatim>\<open>pos\<close>, \<^verbatim>\<open>end\<close> in
  \<^verbatim>\<open>Send\<close>) stay below twice the length of a slice held in memory and are left unwrapped.
\<close>

definition max_int :: int where
  "max_int = 9223372036854775807"

definition go_int :: "int \<Rightarrow> int" where
  "go_int x = (x + 9223372036854775808) mod 18446744073709551616 - 9223372036854775808"

text \<open>
  A non-nil byte slice: its capacity and its elements (its length is the number of
  elements). A slice value that may be \<^verbatim>\<open>nil\<close> is a \<open>slice option\<close>, \<open>None\<close> being
  \<^verbatim>\<open>nil\<close>.
\<close>

record slice =
  cap :: nat
  elems :: bytes

definition go_len :: "slice option \<Rightarrow> nat" where
  "go_len s = (case s of None \<Rightarrow> 0 | Some b \<Rightarrow> length (elems b))"

definition go_cap :: "slice option \<Rightarrow> nat" where
  "go_cap s = (case s of None \<Rightarrow> 0 | Some b \<Rightarrow> cap b)"

text \<open>
  \<^verbatim>\<open>append(s, chunk...)\<close>. While the result fits the capacity the slice is extended in
  place (\<^verbatim>\<open>nil\<close> stays \<^verbatim>\<open>nil\<close> when nothing is appended). Otherwise the runtime allocates
  a larger array; how large is the runtime's choice, so the new capacity is the parameter
  \<open>grow\<close>, applied to the old capacity and the length needed.
\<close>

definition go_append :: "(nat \<Rightarrow> nat \<Rightarrow> nat) \<Rightarrow> slice option \<Rightarrow> bytes \<Rightarrow> slice option" where
  "go_append grow s chunk =
     (if go_len s + length chunk \<le> go_cap s then
        (case s of None \<Rightarrow> None | Some b \<Rightarrow> Some (b\<lparr>elems := elems b @ chunk\<rparr>))
      else
        Some \<lparr>cap = grow (go_cap s) (go_len s + length chunk),
              elems = (case s of None \<Rightarrow> [] | Some b \<Rightarrow> elems b) @ chunk\<rparr>)"

text \<open>
  Errors. \<^verbatim>\<open>ErrClosed\<close> and \<^verbatim>\<open>ErrTimeout\<close> are the package's error values;
  \<open>ErrorText\<close> is an error made by \<^verbatim>\<open>errors.New\<close> or \<^verbatim>\<open>fmt.Errorf\<close> with the given text;
  \<open>InvalidTimeout d\<close> is \<^verbatim>\<open>fmt.Errorf("invalid timeout %v < 1ms", d)\<close>.
\<close>

datatype error = ErrClosed | ErrTimeout | ErrorText string | InvalidTimeout int

text \<open>
  How a call ends: it returns, it panics (with the runtime's message), or it stays
  blocked on a channel for good.
\<close>

datatype 'a outcome = Returns 'a | Panics string | Blocks

section \<open>The tunnel and its connection\<close>

text \<open>
  The messages the connection writes to the relay for a tunnel, with the arguments of
  \<^verbatim>\<open>sendTunnelInit\<close>, \<^verbatim>\<open>sendTunnelConfirm\<close>, \<^verbatim>\<open>sendTunnelAllowance\<close>,
  \<^verbatim>\<open>sendTunnelTransfer\<close> and \<^verbatim>\<open>sendTunnelClose\<close>.
\<close>

datatype msg =
    TunnelInit nat string int
  | TunnelConfirm nat nat
  | TunnelAllowance nat int
  | TunnelTransfer nat int bytes
  | TunnelClose nat

text \<open>
  The unbuffered channel \<^verbatim>\<open>init\<close> (\<^verbatim>\<open>make(chan bool)\<close>): nobody receives on it, the
  initiating call is parked receiving on it, or a value has just been handed over.
\<close>

datatype rendezvous = Idle | Receiving | Handed bool

text \<open>
  The struct \<^verbatim>\<open>Tunnel\<close>. \<^verbatim>\<open>itoaSign\<close> and \<^verbatim>\<open>atoiSign\<close> are channels of capacity one that
  only ever carry \<^verbatim>\<open>struct{}{}\<close>: a flag says whether the slot is filled. \<^verbatim>\<open>term\<close> is only
  ever closed: \<open>term_ch\<close> says whether it has been. \<^verbatim>\<open>itoaBuf\<close> is the FIFO queue, head
  first. The logger is left out; the connection is threaded beside the tunnel. The two
  mutexes are not fields of the model: every section they guard (in \<^verbatim>\<open>drainAllowance\<close>,
  \<^verbatim>\<open>handleAllowance\<close>, \<^verbatim>\<open>fetchMessage\<close>, \<^verbatim>\<open>handleTransfer\<close>) contains no blocking
  operation and is one step here.
\<close>

record Tunnel =
  tunId :: nat
  chunkLimit :: int
  chunkBuf :: "slice option"
  itoaBuf :: "slice option list"
  itoaSign :: bool
  atoiSpace :: int
  atoiSign :: bool
  init_ch :: rendezvous
  term_ch :: bool
  stat :: "error option"

text \<open>
  The part of \<^verbatim>\<open>Connection\<close> that tunnel.go touches: the id counter, the registry of live
  tunnels (\<^verbatim>\<open>nil\<close> once the connection is down) and, as a log, what the code asks the
  connection to transmit: \<open>wire\<close> holds the messages written by calls the code waits for,
  \<open>spawned\<close> the sends started with \<^verbatim>\<open>go\<close>, whose result nobody reads.
\<close>

record Connection =
  tunIdx :: nat
  tunLive :: "(nat \<rightharpoonup> Tunnel) option"
  wire :: "msg list"
  spawned :: "msg list"

text \<open>
  Modelled from the spec: the connection's outbound primitives are not part of tunnel.go.
  The spec (section 6) says each of them may fail with a transport error that aborts the
  calling operation. Whether a send fails is decided outside the tunnel, so it is the
  parameter \<open>tx\<close>; a send that succeeds is recorded on the wire.
\<close>

definition conn_send :: "(Connection \<Rightarrow> msg \<Rightarrow> error option) \<Rightarrow> msg \<Rightarrow> Connection \<Rightarrow> error option \<times> Connection" where
  "conn_send tx m c =
     (case tx c m of
        None \<Rightarrow> (None, c\<lparr>wire := wire c @ [m]\<rparr>)
      | Some e \<Rightarrow> (Some e, c))"

text \<open>\<^verbatim>\<open>go t.conn.sendTunnelAllowance(id, n)\<close>: the send is handed to a new goroutine.\<close>

definition go_spawn :: "msg \<Rightarrow> Connection \<Rightarrow> Connection" where
  "go_spawn m c = c\<lparr>spawned := spawned c @ [m]\<rparr>"

section \<open>Flow control: the credit counter\<close>

text \<open>\<^verbatim>\<open>drainAllowance\<close> (tunnel.go:206): take \<open>need\<close> bytes of credit if there are that many,
  otherwise empty the grant signal.\<close>

definition drainAllowance :: "int \<Rightarrow> Tunnel \<Rightarrow> bool \<times> Tunnel" where
  "drainAllowance need t =
     (if atoiSpace t \<ge> need then (True, t\<lparr>atoiSpace := go_int (atoiSpace t - need)\<rparr>)
      else (False, t\<lparr>atoiSign := False\<rparr>))"

text \<open>\<^verbatim>\<open>handleAllowance\<close> (tunnel.go:300): add the grant and raise the grant signal.\<close>

definition handleAllowance :: "int \<Rightarrow> Tunnel \<Rightarrow> Tunnel" where
  "handleAllowance space t = t\<lparr>atoiSpace := go_int (atoiSpace t + space), atoiSign := True\<rparr>"

text \<open>A sequence of credit operations, for stating the invariant of the counter.\<close>

datatype credit_op = Grant int | Drain int

fun credit_step :: "credit_op \<Rightarrow> Tunnel \<Rightarrow> Tunnel" where
  "credit_step (Grant g) t = handleAllowance g t"
| "credit_step (Drain need) t = snd (drainAllowance need t)"

fun credit_run :: "credit_op list \<Rightarrow> Tunnel \<Rightarrow> Tunnel" where
  "credit_run [] t = t"
| "credit_run (x # ops) t = credit_run ops (credit_step x t)"

text \<open>The operations keep to the range of \<^verbatim>\<open>int\<close>: grants and needs are not negative, and
  no grant takes the counter past the largest \<^verbatim>\<open>int\<close>.\<close>

fun credit_in_range :: "credit_op list \<Rightarrow> Tunnel \<Rightarrow> bool" where
  "credit_in_range [] t = True"
| "credit_in_range (Grant g # ops) t =
     (0 \<le> g \<and> atoiSpace t + g \<le> max_int \<and> credit_in_range ops (handleAllowance g t))"
| "credit_in_range (Drain need # ops) t =
     (0 \<le> need \<and> credit_in_range ops (snd (drainAllowance need t)))"

text \<open>A tunnel as \<^verbatim>\<open>newTunnel\<close> makes it (tunnel.go:60).\<close>

definition fresh_tunnel :: "nat \<Rightarrow> Tunnel" where
  "fresh_tunnel i =
     \<lparr>tunId = i, chunkLimit = 0, chunkBuf = None, itoaBuf = [], itoaSign = False,
      atoiSpace = 0, atoiSign = False, init_ch = Idle, term_ch = False, stat = None\<rparr>"

section \<open>Relay events handled by the tunnel\<close>

text \<open>
  \<^verbatim>\<open>handleInitResult\<close> (tunnel.go:292): store a positive chunk limit, then send the verdict
  on the unbuffered channel \<^verbatim>\<open>init\<close>. The send completes only when the initiating call is
  receiving; otherwise the handler stays blocked in it.
\<close>

definition handleInitResult :: "int \<Rightarrow> Tunnel \<Rightarrow> unit outcome \<times> Tunnel" where
  "handleInitResult limit t =
     (let t1 = (if limit > 0 then t\<lparr>chunkLimit := limit\<rparr> else t)
      in (case init_ch t1 of
            Receiving \<Rightarrow> (Returns (), t1\<lparr>init_ch := Handed (limit > 0)\<rparr>)
          | Idle \<Rightarrow> (Blocks, t1)
          | Handed b \<Rightarrow> (Blocks, t1)))"

text \<open>
  \<^verbatim>\<open>handleTransfer\<close> (tunnel.go:313). For a non-zero size a pending buffer is given up,
  its length granted back in a goroutine, and \<^verbatim>\<open>make([]byte, 0, size)\<close> starts a new
  buffer; \<^verbatim>\<open>make\<close> panics on a negative capacity (the limit of the allocator on large
  capacities is not modelled). The chunk is appended, and a buffer whose length equals its
  capacity is pushed on the queue and the arrival signal raised.
\<close>

fun handleTransfer :: "(nat \<Rightarrow> nat \<Rightarrow> nat) \<Rightarrow> int \<Rightarrow> bytes \<Rightarrow> Tunnel \<times> Connection \<Rightarrow> unit outcome \<times> Tunnel \<times> Connection" where
  "handleTransfer grow sz chunk (t, c) =
     (let c1 = (if sz \<noteq> 0 \<and> chunkBuf t \<noteq> None
                then go_spawn (TunnelAllowance (tunId t) (int (go_len (chunkBuf t)))) c else c)
      in if sz < 0 then (Panics ''makeslice: cap out of range'', t, c1)
         else
           (let t1 = (if sz \<noteq> 0 then t\<lparr>chunkBuf := Some \<lparr>cap = nat sz, elems = []\<rparr>\<rparr> else t);
                t2 = t1\<lparr>chunkBuf := go_append grow (chunkBuf t1) chunk\<rparr>
            in if go_len (chunkBuf t2) = go_cap (chunkBuf t2)
               then (Returns (), t2\<lparr>itoaBuf := itoaBuf t2 @ [chunkBuf t2], chunkBuf := None, itoaSign := True\<rparr>, c1)
               else (Returns (), t2, c1)))"

declare handleTransfer.simps [simp del]

text \<open>
  \<^verbatim>\<open>handleClose\<close> (tunnel.go:342): store the reason, if any, then \<^verbatim>\<open>close(t.term)\<close>.
  Closing a channel that is closed already is a run-time panic.
\<close>

definition handleClose :: "string \<Rightarrow> Tunnel \<Rightarrow> unit outcome \<times> Tunnel" where
  "handleClose reason t =
     (let t1 = (if reason \<noteq> [] then t\<lparr>stat := Some (ErrorText (''remote error: '' @ reason))\<rparr> else t)
      in if term_ch t1 then (Panics ''close of closed channel'', t1)
         else (Returns (), t1\<lparr>term_ch := True\<rparr>))"

section \<open>Blocking calls\<close>

text \<open>
  A blocking call runs beside the connection's dispatch goroutine and a timer. What
  they do while the call is parked is the call's schedule: the relay events delivered to
  this tunnel, in order, and \<open>Tick\<close> for the timer of the call firing. The schedule is
  read only while the call is parked with nothing to receive; a call that is parked when
  the schedule runs out stays blocked.
\<close>

datatype event = Allowance int | Transfer int bytes | Closing string | Tick

text \<open>
  The surroundings of a call: whether a transport send fails (\<open>tx\<close>), which ready case a
  \<^verbatim>\<open>select\<close> picks when several are ready (Go picks at random; \<open>pick_order\<close> lists the
  cases in the order of preference of this run), how \<^verbatim>\<open>append\<close> grows a full slice, and
  whether the timer of the call has fired before the call first looks at it (\<open>late\<close>).
\<close>

datatype wake = WTerm | WDeadline | WSign

record env =
  tx :: "Connection \<Rightarrow> msg \<Rightarrow> error option"
  pick_order :: "wake list"
  grow_cap :: "nat \<Rightarrow> nat \<Rightarrow> nat"
  late :: bool

type_synonym world = "Tunnel \<times> Connection"

definition go_select :: "wake list \<Rightarrow> (wake \<Rightarrow> bool) \<Rightarrow> wake option" where
  "go_select order rdy =
     (case filter rdy (order @ [WTerm, WDeadline, WSign]) of [] \<Rightarrow> None | w # ws \<Rightarrow> Some w)"

text \<open>Which cases of a \<^verbatim>\<open>select\<close> over \<^verbatim>\<open>t.term\<close>, a timer channel (\<^verbatim>\<open>nil\<close> when the
  timeout is zero) and a signal channel can proceed.\<close>

fun ready :: "(Tunnel \<Rightarrow> bool) \<Rightarrow> bool option \<Rightarrow> Tunnel \<Rightarrow> wake \<Rightarrow> bool" where
  "ready sig dl t WTerm = term_ch t"
| "ready sig dl t WDeadline = (dl = Some True)"
| "ready sig dl t WSign = sig t"

fun deliver :: "env \<Rightarrow> event \<Rightarrow> world \<Rightarrow> unit outcome \<times> world" where
  "deliver env (Allowance space) (t, c) = (Returns (), handleAllowance space t, c)"
| "deliver env (Transfer sz chunk) (t, c) = handleTransfer (grow_cap env) sz chunk (t, c)"
| "deliver env (Closing reason) (t, c) = (case handleClose reason t of (r, t1) \<Rightarrow> (r, t1, c))"
| "deliver env Tick (t, c) = (Returns (), t, c)"

fun fire :: "event \<Rightarrow> bool option \<Rightarrow> bool option" where
  "fire Tick (Some b) = Some True"
| "fire e dl = dl"

text \<open>
  A parked \<^verbatim>\<open>select\<close>: if a case is ready it is taken; otherwise the next item of the
  schedule happens and the \<^verbatim>\<open>select\<close> looks again. A panic in a handler ends the program.
\<close>

fun await :: "env \<Rightarrow> (Tunnel \<Rightarrow> bool) \<Rightarrow> bool option \<Rightarrow> event list \<Rightarrow> world \<Rightarrow> wake outcome \<times> world \<times> bool option \<times> event list" where
  "await env sig dl [] tc =
     (case go_select (pick_order env) (ready sig dl (fst tc)) of
        Some w \<Rightarrow> (Returns w, tc, dl, [])
      | None \<Rightarrow> (Blocks, tc, dl, []))"
| "await env sig dl (e # evs) tc =
     (case go_select (pick_order env) (ready sig dl (fst tc)) of
        Some w \<Rightarrow> (Returns w, tc, dl, e # evs)
      | None \<Rightarrow>
          (case deliver env e tc of
             (Returns u, tc1) \<Rightarrow> await env sig (fire e dl) evs tc1
           | (Panics m, tc1) \<Rightarrow> (Panics m, tc1, dl, evs)
           | (Blocks, tc1) \<Rightarrow> (Blocks, tc1, dl, evs)))"

lemma go_select_ready: "go_select order rdy = Some w \<Longrightarrow> rdy w"
proof -
  assume "go_select order rdy = Some w"
  then obtain ws where "filter rdy (order @ [WTerm, WDeadline, WSign]) = w # ws"
    by (auto simp: go_select_def split: list.splits)
  then have "w \<in> set (filter rdy (order @ [WTerm, WDeadline, WSign]))"
    by simp
  then show "rdy w" by (simp only: set_filter mem_Collect_eq)
qed

lemma await_schedule_le:
  "await env sig dl evs tc = (r, tc', dl', evs') \<Longrightarrow> length evs' \<le> length evs"
proof (induction evs arbitrary: tc dl)
  case Nil
  then show ?case by (auto split: option.splits)
next
  case (Cons e evs)
  show ?case
  proof (cases "go_select (pick_order env) (ready sig dl (fst tc))")
    case (Some w)
    with Cons.prems show ?thesis by simp
  next
    case None
    obtain o1 tc1 where d: "deliver env e tc = (o1, tc1)" by (cases "deliver env e tc")
    show ?thesis
    proof (cases o1)
      case (Returns u)
      with Cons.prems None d have "await env sig (fire e dl) evs tc1 = (r, tc', dl', evs')" by simp
      from Cons.IH [OF this] show ?thesis by simp
    next
      case (Panics m)
      with Cons.prems None d show ?thesis by auto
    next
      case Blocks
      with Cons.prems None d show ?thesis by auto
    qed
  qed
qed

lemma await_sign_consumes:
  assumes "await env sig dl evs tc = (Returns WSign, tc', dl', evs')" and "\<not> sig (fst tc)"
  shows "length evs' < length evs"
proof (cases "go_select (pick_order env) (ready sig dl (fst tc))")
  case (Some w)
  with assms(1) have "w = WSign" by (cases evs) auto
  with Some have "ready sig dl (fst tc) WSign" by (auto dest: go_select_ready)
  with assms(2) show ?thesis by simp
next
  case None
  show ?thesis
  proof (cases evs)
    case Nil
    with None assms(1) show ?thesis by simp
  next
    case (Cons e es)
    obtain o1 tc1 where d: "deliver env e tc = (o1, tc1)" by (cases "deliver env e tc")
    show ?thesis
    proof (cases o1)
      case (Returns u)
      with assms(1) None d Cons have "await env sig (fire e dl) es tc1 = (Returns WSign, tc', dl', evs')"
        by simp
      from await_schedule_le [OF this] Cons show ?thesis by simp
    next
      case (Panics m)
      with assms(1) None d Cons show ?thesis by auto
    next
      case Blocks
      with assms(1) None d Cons show ?thesis by auto
    qed
  qed
qed

lemma drainAllowance_refused: "drainAllowance need t = (False, t1) \<Longrightarrow> \<not> atoiSign t1"
  by (auto simp: drainAllowance_def split: if_splits)

text \<open>
  \<^verbatim>\<open>sendChunk\<close> (tunnel.go:185): send the chunk as soon as the credit covers it;
  until then wait for termination, the deadline or a grant, and after a grant try again.
\<close>

function sendChunk :: "env \<Rightarrow> bytes \<Rightarrow> int \<Rightarrow> bool option \<Rightarrow> event list \<Rightarrow> world \<Rightarrow> error option outcome \<times> world \<times> bool option \<times> event list" where
  "sendChunk env chunk sizeOrCont dl evs tc =
     (case drainAllowance (int (length chunk)) (fst tc) of
        (True, t1) \<Rightarrow>
          (case conn_send (tx env) (TunnelTransfer (tunId t1) sizeOrCont chunk) (snd tc) of
             (err, c1) \<Rightarrow> (Returns err, (t1, c1), dl, evs))
      | (False, t1) \<Rightarrow>
          (case await env atoiSign dl evs (t1, snd tc) of
             (Returns WTerm, tc2, dl2, evs2) \<Rightarrow> (Returns (Some ErrClosed), tc2, dl2, evs2)
           | (Returns WDeadline, tc2, dl2, evs2) \<Rightarrow> (Returns (Some ErrTimeout), tc2, dl2, evs2)
           | (Returns WSign, tc2, dl2, evs2) \<Rightarrow>
               sendChunk env chunk sizeOrCont dl2 evs2 ((fst tc2)\<lparr>atoiSign := False\<rparr>, snd tc2)
           | (Panics m, tc2, dl2, evs2) \<Rightarrow> (Panics m, tc2, dl2, evs2)
           | (Blocks, tc2, dl2, evs2) \<Rightarrow> (Blocks, tc2, dl2, evs2)))"
  by pat_completeness auto
termination
  apply (relation "measure (\<lambda>(env, chunk, sizeOrCont, dl, evs, tc). length evs)")
   apply simp
  apply (auto dest!: drainAllowance_refused [OF sym] dest: await_sign_consumes [OF sym])
  done

declare sendChunk.simps [simp del]

text \<open>\<^verbatim>\<open>message[pos:end]\<close> for bounds the caller has checked.\<close>

definition go_slice :: "bytes \<Rightarrow> int \<Rightarrow> int \<Rightarrow> bytes" where
  "go_slice message pos end1 = take (nat (end1 - pos)) (drop (nat pos) message)"

text \<open>
  The loop of \<^verbatim>\<open>Send\<close> (tunnel.go:168). The loop runs as long as chunk sends succeed, so
  it carries fuel: one unit for every run of the loop body. \<open>None\<close> says that the fuel
  did not suffice. A slice expression whose bounds are out of order panics.
\<close>

fun Send_loop :: "nat \<Rightarrow> env \<Rightarrow> bytes \<Rightarrow> int \<Rightarrow> bool option \<Rightarrow> event list \<Rightarrow> world \<Rightarrow> (error option outcome \<times> world \<times> bool option \<times> event list) option" where
  "Send_loop 0 env message pos dl evs tc =
     (if pos < int (length message) then None else Some (Returns None, tc, dl, evs))"
| "Send_loop (Suc fuel) env message pos dl evs tc =
     (if pos < int (length message) then
        (let end0 = pos + chunkLimit (fst tc);
             end1 = (if end0 > int (length message) then int (length message) else end0);
             sizeOrCont = (if pos \<noteq> 0 then 0 else int (length message))
         in if pos < 0 \<or> end1 < pos then Some (Panics ''slice bounds out of range'', tc, dl, evs)
            else
              (case sendChunk env (go_slice message pos end1) sizeOrCont dl evs tc of
                 (Returns None, tc1, dl1, evs1) \<Rightarrow>
                   Send_loop fuel env message (pos + chunkLimit (fst tc1)) dl1 evs1 tc1
               | (Returns (Some err), tc1, dl1, evs1) \<Rightarrow> Some (Returns (Some err), tc1, dl1, evs1)
               | (Panics m, tc1, dl1, evs1) \<Rightarrow> Some (Panics m, tc1, dl1, evs1)
               | (Blocks, tc1, dl1, evs1) \<Rightarrow> Some (Blocks, tc1, dl1, evs1)))
      else Some (Returns None, tc, dl, evs))"

text \<open>
  \<^verbatim>\<open>Send\<close> (tunnel.go:155). A zero timeout leaves the deadline channel \<^verbatim>\<open>nil\<close>;
  otherwise \<^verbatim>\<open>time.After\<close> makes the timer.
\<close>

definition Send :: "nat \<Rightarrow> env \<Rightarrow> bytes \<Rightarrow> int \<Rightarrow> event list \<Rightarrow> world \<Rightarrow> (error option outcome \<times> world \<times> event list) option" where
  "Send fuel env message timeout evs tc =
     (if length message = 0 then Some (Returns (Some (ErrorText ''nil or empty message'')), tc, evs)
      else
        (case Send_loop fuel env message 0 (if timeout \<noteq> 0 then Some (late env) else None) evs tc of
           None \<Rightarrow> None
         | Some (r, tc1, dl1, evs1) \<Rightarrow> Some (r, tc1, evs1)))"

text \<open>
  \<^verbatim>\<open>fetchMessage\<close> (tunnel.go:252): pop the head of the queue and grant its length back
  in a goroutine, or, the queue being empty, empty the arrival signal and return \<^verbatim>\<open>nil\<close>.
\<close>

fun fetchMessage :: "world \<Rightarrow> slice option \<times> world" where
  "fetchMessage (t, c) =
     (case itoaBuf t of
        message # rest \<Rightarrow>
          (message, t\<lparr>itoaBuf := rest\<rparr>, go_spawn (TunnelAllowance (tunId t) (int (go_len message))) c)
      | [] \<Rightarrow> (None, t\<lparr>itoaSign := False\<rparr>, c))"

text \<open>\<^verbatim>\<open>Recv\<close> (tunnel.go:226).\<close>

definition Recv :: "env \<Rightarrow> int \<Rightarrow> event list \<Rightarrow> world \<Rightarrow> (slice option \<times> error option) outcome \<times> world \<times> event list" where
  "Recv env timeout evs tc =
     (case fetchMessage tc of
        (Some b, tc1) \<Rightarrow> (Returns (Some b, None), tc1, evs)
      | (None, tc1) \<Rightarrow>
          (case await env itoaSign (if timeout \<noteq> 0 then Some (late env) else None) evs tc1 of
             (Returns WTerm, tc2, dl2, evs2) \<Rightarrow> (Returns (None, Some ErrClosed), tc2, evs2)
           | (Returns WDeadline, tc2, dl2, evs2) \<Rightarrow> (Returns (None, Some ErrTimeout), tc2, evs2)
           | (Returns WSign, tc2, dl2, evs2) \<Rightarrow>
               (case fetchMessage ((fst tc2)\<lparr>itoaSign := False\<rparr>, snd tc2) of
                  (Some b, tc3) \<Rightarrow> (Returns (Some b, None), tc3, evs2)
                | (None, tc3) \<Rightarrow> (Panics ''signal raised but message unavailable'', tc3, evs2))
           | (Panics m, tc2, dl2, evs2) \<Rightarrow> (Panics m, tc2, evs2)
           | (Blocks, tc2, dl2, evs2) \<Rightarrow> (Blocks, tc2, evs2)))"

text \<open>
  \<^verbatim>\<open>Close\<close> (tunnel.go:275): a tunnel that has terminated answers at once; otherwise the
  relay is told and the call waits for \<^verbatim>\<open>t.term\<close> alone.
\<close>

definition Close :: "env \<Rightarrow> event list \<Rightarrow> world \<Rightarrow> error option outcome \<times> world \<times> event list" where
  "Close env evs tc =
     (if term_ch (fst tc) then (Returns (stat (fst tc)), tc, evs)
      else
        (case conn_send (tx env) (TunnelClose (tunId (fst tc))) (snd tc) of
           (Some err, c1) \<Rightarrow> (Returns (Some err), (fst tc, c1), evs)
         | (None, c1) \<Rightarrow>
             (case await env (\<lambda>t. False) None evs (fst tc, c1) of
                (Returns w, tc2, dl2, evs2) \<Rightarrow> (Returns (stat (fst tc2)), tc2, evs2)
              | (Panics m, tc2, dl2, evs2) \<Rightarrow> (Panics m, tc2, evs2)
              | (Blocks, tc2, dl2, evs2) \<Rightarrow> (Blocks, tc2, evs2))))"

section \<open>Construction of tunnels\<close>

text \<open>\<^verbatim>\<open>newTunnel\<close> (tunnel.go:47). The id counter is a \<^verbatim>\<open>uint64\<close>.\<close>

definition newTunnel :: "Connection \<Rightarrow> (error + Tunnel) \<times> Connection" where
  "newTunnel c =
     (case tunLive c of
        None \<Rightarrow> (Inl ErrClosed, c)
      | Some live \<Rightarrow>
          (let tun = fresh_tunnel (tunIdx c)
           in (Inr tun, c\<lparr>tunIdx := (tunIdx c + 1) mod 18446744073709551616,
                           tunLive := Some (live(tunIdx c \<mapsto> tun))\<rparr>)))"

text \<open>\<^verbatim>\<open>delete(c.tunLive, id)\<close>; deleting from a \<^verbatim>\<open>nil\<close> map does nothing.\<close>

definition unregister :: "nat \<Rightarrow> Connection \<Rightarrow> Connection" where
  "unregister i c = c\<lparr>tunLive := map_option (\<lambda>live. live(i := None)) (tunLive c)\<rparr>"

text \<open>
  The registry holds pointers. When the dispatch goroutine changes the tunnel an
  initiating call waits for, the entry of the registry changes with it.
\<close>

definition registered :: "Tunnel \<Rightarrow> Connection \<Rightarrow> Connection" where
  "registered tun c = c\<lparr>tunLive := map_option (\<lambda>live. live(tunId tun \<mapsto> tun)) (tunLive c)\<rparr>"

text \<open>Go's integer division truncates towards zero.\<close>

definition go_quot :: "int \<Rightarrow> int \<Rightarrow> int" where
  "go_quot a b = (if (a < 0) = (b < 0) then \<bar>a\<bar> div \<bar>b\<bar> else - (\<bar>a\<bar> div \<bar>b\<bar>))"

text \<open>
  What wakes the \<^verbatim>\<open>select\<close> of \<^verbatim>\<open>initTunnel\<close>: the dispatch goroutine calls
  \<^verbatim>\<open>handleInitResult\<close> with the chunk limit the relay reports, or the connection
  terminates.
\<close>

datatype init_wake = InitResult int | ConnTerm

text \<open>
  \<^verbatim>\<open>initTunnel\<close> (tunnel.go:79). \<open>buffer\<close> is the constant \<^verbatim>\<open>defaultTunnelBuffer\<close>, which
  is declared outside tunnel.go. \<open>iw\<close> is what wakes the \<^verbatim>\<open>select\<close>, if anything does.
\<close>

definition initTunnel :: "env \<Rightarrow> int \<Rightarrow> init_wake option \<Rightarrow> string \<Rightarrow> int \<Rightarrow> Connection \<Rightarrow> (error + Tunnel) outcome \<times> Connection" where
  "initTunnel env buffer iw cluster timeout c =
     (if length cluster = 0 then (Returns (Inl (ErrorText ''empty cluster identifier'')), c)
      else
        (let timeoutms = go_quot timeout 1000000
         in if timeoutms < 1 then (Returns (Inl (InvalidTimeout timeout)), c)
            else
              (case newTunnel c of
                 (Inl err, c1) \<Rightarrow> (Returns (Inl err), c1)
               | (Inr tun, c1) \<Rightarrow>
                   (case conn_send (tx env) (TunnelInit (tunId tun) cluster timeoutms) c1 of
                      (Some err, c2) \<Rightarrow> (Returns (Inl err), unregister (tunId tun) c2)
                    | (None, c2) \<Rightarrow>
                        (case iw of
                           None \<Rightarrow> (Blocks, registered (tun\<lparr>init_ch := Receiving\<rparr>) c2)
                         | Some ConnTerm \<Rightarrow> (Returns (Inl ErrClosed), unregister (tunId tun) c2)
                         | Some (InitResult limit) \<Rightarrow>
                             (case handleInitResult limit (tun\<lparr>init_ch := Receiving\<rparr>) of
                                (Returns u, tun1) \<Rightarrow>
                                  (if init_ch tun1 = Handed True then
                                     (let tun2 = tun1\<lparr>init_ch := Idle\<rparr>
                                      in case conn_send (tx env) (TunnelAllowance (tunId tun2) buffer) (registered tun2 c2) of
                                           (None, c3) \<Rightarrow> (Returns (Inr tun2), c3)
                                         | (Some err, c3) \<Rightarrow> (Returns (Inl err), unregister (tunId tun2) c3))
                                   else (Returns (Inl ErrTimeout), unregister (tunId tun1) c2))
                              | (Panics m, tun1) \<Rightarrow> (Panics m, registered tun1 c2)
                              | (Blocks, tun1) \<Rightarrow> (Blocks, registered tun1 c2)))))))"

text \<open>\<^verbatim>\<open>acceptTunnel\<close> (tunnel.go:124).\<close>

definition acceptTunnel :: "env \<Rightarrow> int \<Rightarrow> nat \<Rightarrow> int \<Rightarrow> Connection \<Rightarrow> (error + Tunnel) \<times> Connection" where
  "acceptTunnel env buffer initId limit c =
     (case newTunnel c of
        (Inl err, c1) \<Rightarrow> (Inl err, c1)
      | (Inr tun0, c1) \<Rightarrow>
          (let tun = tun0\<lparr>chunkLimit := limit\<rparr>
           in case conn_send (tx env) (TunnelConfirm initId (tunId tun)) (registered tun c1) of
                (Some err, c2) \<Rightarrow> (Inl err, unregister (tunId tun) c2)
              | (None, c2) \<Rightarrow>
                  (case conn_send (tx env) (TunnelAllowance (tunId tun) buffer) c2 of
                     (None, c3) \<Rightarrow> (Inr tun, c3)
                   | (Some err, c3) \<Rightarrow> (Inl err, unregister (tunId tun) c3))))"

text \<open>Several \<^verbatim>\<open>handleClose\<close> calls one after the other, as far as they return.\<close>

fun handleClose_all :: "string list \<Rightarrow> Tunnel \<Rightarrow> unit outcome \<times> Tunnel" where
  "handleClose_all [] t = (Returns (), t)"
| "handleClose_all (reason # reasons) t =
     (case handleClose reason t of
        (Returns u, t1) \<Rightarrow> handleClose_all reasons t1
      | (Panics m, t1) \<Rightarrow> (Panics m, t1)
      | (Blocks, t1) \<Rightarrow> (Blocks, t1))"

section \<open>Concrete surroundings for worked runs\<close>

text \<open>A runtime that grows a full slice to exactly the length needed, a transport that
  never fails, and a run without a late timer in which \<^verbatim>\<open>select\<close> prefers no case.\<close>

definition grow_exact :: "nat \<Rightarrow> nat \<Rightarrow> nat" where
  "grow_exact old need = need"

definition tx_ok :: "Connection \<Rightarrow> msg \<Rightarrow> error option" where
  "tx_ok c m = None"

definition quiet_env :: env where
  "quiet_env = \<lparr>tx = tx_ok, pick_order = [], grow_cap = grow_exact, late = False\<rparr>"

definition idle_conn :: Connection where
  "idle_conn = \<lparr>tunIdx = 0, tunLive = Some Map.empty, wire = [], spawned = []\<rparr>"

text \<open>A transport on which every allowance message is lost with an error.\<close>

fun tx_no_allowance :: "Connection \<Rightarrow> msg \<Rightarrow> error option" where
  "tx_no_allowance c (TunnelAllowance i n) = Some (ErrorText ''broken pipe'')"
| "tx_no_allowance c m = None"

definition lossy_env :: env where
  "lossy_env = \<lparr>tx = tx_no_allowance, pick_order = [], grow_cap = grow_exact, late = False\<rparr>"

section \<open>Chunking as the spec words it\<close>

text \<open>
  The spec's account of \<^verbatim>\<open>Send\<close>, for comparison with the loop above: the message is cut
  into consecutive chunks of at most \<open>n\<close> bytes; the first chunk carries the length of the
  whole message as its tag, every later chunk the tag 0.
\<close>

function chunks :: "nat \<Rightarrow> bytes \<Rightarrow> bytes list" where
  "chunks n xs = (if n = 0 \<or> xs = [] then [] else take n xs # chunks n (drop n xs))"
  by pat_completeness auto
termination
  by (relation "measure (\<lambda>(n, xs). length xs)") auto

declare chunks.simps [simp del]

definition tagged :: "nat \<Rightarrow> bytes \<Rightarrow> (int \<times> bytes) list" where
  "tagged n message =
     (case chunks n message of
        [] \<Rightarrow> []
      | first # later \<Rightarrow> (int (length message), first) # map (Pair 0) later)"

text \<open>A tagged chunk as the transfer message of tunnel \<open>i\<close>, and back.\<close>

definition transfer :: "nat \<Rightarrow> int \<times> bytes \<Rightarrow> msg" where
  "transfer i p = TunnelTransfer i (fst p) (snd p)"

fun transfers_of :: "msg list \<Rightarrow> (int \<times> bytes) list" where
  "transfers_of [] = []"
| "transfers_of (TunnelTransfer i sz chunk # ms) = (sz, chunk) # transfers_of ms"
| "transfers_of (m # ms) = transfers_of ms"

text \<open>
  The receiving side: the dispatch goroutine of the peer calls \<^verbatim>\<open>handleTransfer\<close> once for
  every transfer, in the order of arrival, as long as the handler returns.
\<close>

fun feed :: "(nat \<Rightarrow> nat \<Rightarrow> nat) \<Rightarrow> (int \<times> bytes) list \<Rightarrow> world \<Rightarrow> unit outcome \<times> world" where
  "feed grow [] tc = (Returns (), tc)"
| "feed grow (p # ps) tc =
     (case handleTransfer grow (fst p) (snd p) tc of
        (Returns u, tc1) \<Rightarrow> feed grow ps tc1
      | (Panics m, tc1) \<Rightarrow> (Panics m, tc1)
      | (Blocks, tc1) \<Rightarrow> (Blocks, tc1))"

section \<open>Properties of the credit counter\<close>

lemma go_int_id: "- 9223372036854775808 \<le> x \<Longrightarrow> x \<le> 9223372036854775807 \<Longrightarrow> go_int x = x"
  by (simp add: go_int_def)

lemma credit_step_in_range:
  assumes "0 \<le> atoiSpace t" and "atoiSpace t \<le> max_int" and "credit_in_range (x # ops) t"
  shows "0 \<le> atoiSpace (credit_step x t) \<and> atoiSpace (credit_step x t) \<le> max_int
         \<and> credit_in_range ops (credit_step x t)"
proof (cases x)
  case (Grant g)
  with assms have g: "0 \<le> g" "atoiSpace t + g \<le> max_int" by simp_all
  with assms(1) have "go_int (atoiSpace t + g) = atoiSpace t + g"
    by (intro go_int_id) (simp_all add: max_int_def)
  with assms g Grant show ?thesis by (simp add: handleAllowance_def)
next
  case (Drain need)
  with assms have n: "0 \<le> need" by simp
  show ?thesis
  proof (cases "atoiSpace t \<ge> need")
    case True
    with assms n have "go_int (atoiSpace t - need) = atoiSpace t - need"
      by (intro go_int_id) (simp_all add: max_int_def)
    with assms n True Drain show ?thesis by (simp add: drainAllowance_def)
  next
    case False
    with assms Drain show ?thesis by (simp add: drainAllowance_def)
  qed
qed

lemma credit_in_range_take:
  "credit_in_range ops t \<Longrightarrow> credit_in_range (take k ops) t"
proof (induction ops t arbitrary: k rule: credit_in_range.induct)
  case (1 t)
  then show ?case by simp
next
  case (2 g ops t)
  then show ?case by (cases k) simp_all
next
  case (3 need ops t)
  then show ?case by (cases k) simp_all
qed

lemma credit_run_in_range:
  assumes "0 \<le> atoiSpace t" and "atoiSpace t \<le> max_int" and "credit_in_range ops t"
  shows "0 \<le> atoiSpace (credit_run ops t) \<and> atoiSpace (credit_run ops t) \<le> max_int"
  using assms
proof (induction ops arbitrary: t)
  case Nil
  then show ?case by simp
next
  case (Cons x ops)
  from credit_step_in_range [OF Cons.prems]
  have "0 \<le> atoiSpace (credit_step x t)" "atoiSpace (credit_step x t) \<le> max_int"
    "credit_in_range ops (credit_step x t)" by simp_all
  from Cons.IH [OF this] show ?case by simp
qed

lemma drainAllowance_in_range:
  assumes "0 \<le> need" and "0 \<le> atoiSpace t" and "atoiSpace t \<le> max_int"
  shows "drainAllowance need t =
           (if need \<le> atoiSpace t then (True, t\<lparr>atoiSpace := atoiSpace t - need\<rparr>)
            else (False, t\<lparr>atoiSign := False\<rparr>))"
proof (cases "need \<le> atoiSpace t")
  case True
  with assms have "go_int (atoiSpace t - need) = atoiSpace t - need"
    by (intro go_int_id) (simp_all add: max_int_def)
  with True show ?thesis by (simp add: drainAllowance_def)
next
  case False
  then show ?thesis by (simp add: drainAllowance_def)
qed

text \<open>
  Claim C5, as amended. The credit counter \<^verbatim>\<open>atoiSpace\<close> is never negative after any
  operation of a sequence of \<^verbatim>\<open>handleAllowance(g)\<close> and \<^verbatim>\<open>drainAllowance(need)\<close> calls
  with \<open>g \<ge> 0\<close> and \<open>need \<ge> 0\<close>, as long as no grant takes the counter past the
  largest \<^verbatim>\<open>int\<close>; and \<^verbatim>\<open>drainAllowance\<close> returns true and subtracts \<open>need\<close> exactly when the
  credit is at least \<open>need\<close>, and otherwise returns false and leaves the credit as it is.
\<close>

theorem atoiSpace_never_negative_in_range:
  assumes "0 \<le> atoiSpace t" and "atoiSpace t \<le> max_int" and "credit_in_range ops t"
  shows "(\<forall>k\<le>length ops. 0 \<le> atoiSpace (credit_run (take k ops) t))
       \<and> (\<forall>need\<ge>0. fst (drainAllowance need t) = (need \<le> atoiSpace t)
              \<and> atoiSpace (snd (drainAllowance need t)) =
                   (if need \<le> atoiSpace t then atoiSpace t - need else atoiSpace t))"
proof (intro conjI allI impI)
  fix k
  from assms(3) have "credit_in_range (take k ops) t" by (rule credit_in_range_take)
  with assms(1,2) show "0 \<le> atoiSpace (credit_run (take k ops) t)"
    using credit_run_in_range by blast
next
  fix need :: int
  assume "0 \<le> need"
  from drainAllowance_in_range [OF this assms(1,2)]
  show "fst (drainAllowance need t) = (need \<le> atoiSpace t)" by simp
next
  fix need :: int
  assume "0 \<le> need"
  from drainAllowance_in_range [OF this assms(1,2)]
  show "atoiSpace (snd (drainAllowance need t)) =
          (if need \<le> atoiSpace t then atoiSpace t - need else atoiSpace t)" by simp
qed

text \<open>The scenario of the spec: credit 8, a chunk of 10 bytes has to wait for a grant of 2.\<close>

theorem atoiSpace_never_negative_witness:
  "atoiSpace (credit_run [Grant 8, Drain 10, Grant 2, Drain 10] (fresh_tunnel 0)) = 0
   \<and> atoiSpace (credit_run (take 2 [Grant 8, Drain 10, Grant 2, Drain 10]) (fresh_tunnel 0)) = 8
   \<and> 0 \<le> atoiSpace (credit_run (take 2 [Grant 8, Drain 10, Grant 2, Drain 10]) (fresh_tunnel 0))
   \<and> fst (drainAllowance 10 (fresh_tunnel 0)) = False"
proof -
  have r: "credit_in_range [Grant 8, Drain 10, Grant 2, Drain 10] (fresh_tunnel 0)"
    by (simp add: fresh_tunnel_def handleAllowance_def drainAllowance_def go_int_def max_int_def)
  have a: "0 \<le> atoiSpace (fresh_tunnel 0)" "atoiSpace (fresh_tunnel 0) \<le> max_int"
    by (simp_all add: fresh_tunnel_def max_int_def)
  show ?thesis
    using atoiSpace_never_negative_in_range [OF a r, THEN conjunct1, THEN spec, of 2]
    by (simp add: fresh_tunnel_def handleAllowance_def drainAllowance_def go_int_def)
qed

text \<open>
  Claim C5 as stated fails: two grants that are not negative wrap the counter around to
  the smallest \<^verbatim>\<open>int\<close>.
\<close>

theorem atoiSpace_overflow_counterexample:
  "0 \<le> atoiSpace (fresh_tunnel 0)
   \<and> atoiSpace (credit_run [Grant 9223372036854775807, Grant 1] (fresh_tunnel 0)) = - 9223372036854775808
   \<and> atoiSpace (handleAllowance 1 (handleAllowance 9223372036854775807 (fresh_tunnel 0))) < 0"
  by (simp add: fresh_tunnel_def handleAllowance_def go_int_def)

section \<open>Termination signal\<close>

lemma handleClose_open:
  "\<not> term_ch t \<Longrightarrow> handleClose reason t =
     (Returns (), (if reason \<noteq> [] then t\<lparr>stat := Some (ErrorText (''remote error: '' @ reason))\<rparr> else t)\<lparr>term_ch := True\<rparr>)"
  by (simp add: handleClose_def)

lemma handleClose_terminal:
  "term_ch t \<Longrightarrow> handleClose reason t =
     (Panics ''close of closed channel'', (if reason \<noteq> [] then t\<lparr>stat := Some (ErrorText (''remote error: '' @ reason))\<rparr> else t))"
  by (simp add: handleClose_def)

text \<open>
  Claim C3, as amended. \<^verbatim>\<open>handleClose\<close> on a tunnel that is not terminal yet returns and
  raises the termination signal. Called again on the terminal tunnel it is not a no-op:
  \<^verbatim>\<open>close(t.term)\<close> panics. So the signal is raised once, and any run of two or more
  \<^verbatim>\<open>handleClose\<close> calls on a tunnel ends in that panic at the second call.
\<close>

theorem handleClose_second_call_panics:
  "(\<not> term_ch t \<longrightarrow>
      fst (handleClose reason t) = Returns () \<and> term_ch (snd (handleClose reason t))
      \<and> fst (handleClose_all (reason # reason2 # reasons) t) = Panics ''close of closed channel'')
   \<and> (term_ch t \<longrightarrow>
      fst (handleClose reason t) = Panics ''close of closed channel''
      \<and> term_ch (snd (handleClose reason t)))"
proof (intro conjI impI)
  assume o: "\<not> term_ch t"
  show "fst (handleClose reason t) = Returns ()" using o by (simp add: handleClose_open)
  show "term_ch (snd (handleClose reason t))" using o by (simp add: handleClose_open)
  show "fst (handleClose_all (reason # reason2 # reasons) t) = Panics ''close of closed channel''"
    using o by (simp add: handleClose_open handleClose_terminal)
next
  assume c: "term_ch t"
  show "fst (handleClose reason t) = Panics ''close of closed channel''"
    using c by (simp add: handleClose_terminal)
  show "term_ch (snd (handleClose reason t))" using c by (simp add: handleClose_terminal)
qed

theorem handleClose_second_call_witness:
  "\<not> term_ch (fresh_tunnel 0)
   \<and> fst (handleClose ''peer crashed'' (fresh_tunnel 0)) = Returns ()
   \<and> term_ch (snd (handleClose ''peer crashed'' (fresh_tunnel 0)))
   \<and> fst (handleClose_all [''peer crashed'', '''', ''again''] (fresh_tunnel 0)) = Panics ''close of closed channel''
   \<and> fst (handleClose '''' (snd (handleClose ''peer crashed'' (fresh_tunnel 0)))) = Panics ''close of closed channel''"
proof -
  have o: "\<not> term_ch (fresh_tunnel 0)" by (simp add: fresh_tunnel_def)
  have c: "term_ch (snd (handleClose ''peer crashed'' (fresh_tunnel 0)))"
    by (simp add: fresh_tunnel_def handleClose_def)
  from handleClose_second_call_panics [of "fresh_tunnel 0" "''peer crashed''" "''''" "[''again'']"] o
  have 1: "fst (handleClose ''peer crashed'' (fresh_tunnel 0)) = Returns ()"
    "fst (handleClose_all [''peer crashed'', '''', ''again''] (fresh_tunnel 0)) = Panics ''close of closed channel''"
    by blast+
  from handleClose_second_call_panics [of "snd (handleClose ''peer crashed'' (fresh_tunnel 0))" "''''"] c
  have 2: "fst (handleClose '''' (snd (handleClose ''peer crashed'' (fresh_tunnel 0)))) = Panics ''close of closed channel''"
    by blast
  from o c 1 2 show ?thesis by blast
qed

text \<open>
  Claim C3 as stated fails: after a graceful close a second \<^verbatim>\<open>handleClose\<close> panics, and
  one with a reason also overwrites the stored reason before it panics.
\<close>

theorem handleClose_twice_counterexample:
  "fst (handleClose '''' (fresh_tunnel 0)) = Returns ()
   \<and> fst (handleClose '''' (snd (handleClose '''' (fresh_tunnel 0)))) = Panics ''close of closed channel''
   \<and> stat (snd (handleClose '''' (fresh_tunnel 0))) = None
   \<and> stat (snd (handleClose ''late'' (snd (handleClose '''' (fresh_tunnel 0))))) = Some (ErrorText ''remote error: late'')"
  by (simp add: fresh_tunnel_def handleClose_def)

section \<open>Reassembly\<close>

lemma handleTransfer_start:
  assumes "0 < sz"
  shows "handleTransfer grow sz chunk (t, c) =
     (let c1 = (if chunkBuf t \<noteq> None then go_spawn (TunnelAllowance (tunId t) (int (go_len (chunkBuf t)))) c else c);
          b = go_append grow (Some \<lparr>cap = nat sz, elems = []\<rparr>) chunk
      in if go_len b = go_cap b
         then (Returns (), t\<lparr>chunkBuf := None, itoaBuf := itoaBuf t @ [b], itoaSign := True\<rparr>, c1)
         else (Returns (), t\<lparr>chunkBuf := b\<rparr>, c1))"
  using assms by (simp add: handleTransfer.simps Let_def)

lemma go_append_fits:
  "length (elems b) + length chunk \<le> cap b \<Longrightarrow>
   go_append grow (Some b) chunk = Some (b\<lparr>elems := elems b @ chunk\<rparr>)"
  by (simp add: go_append_def go_len_def go_cap_def)



section \<open>Waiting on a terminal tunnel\<close>

lemma go_select_None_D:
  assumes "go_select order rdy = None"
  shows "\<not> rdy w"
proof
  assume "rdy w"
  have "w \<in> set (order @ [WTerm, WDeadline, WSign])" by (cases w) simp_all
  with \<open>rdy w\<close> have "w \<in> set (filter rdy (order @ [WTerm, WDeadline, WSign]))"
    by (simp only: set_filter mem_Collect_eq simp_thms)
  moreover from assms have "filter rdy (order @ [WTerm, WDeadline, WSign]) = []"
    unfolding go_select_def by (simp only: list.case_eq_if split: if_splits) simp
  ultimately show False by (simp only: list.set empty_iff)
qed

lemma go_select_only:
  assumes "rdy w" and "\<And>v. rdy v \<Longrightarrow> v = w"
  shows "go_select order rdy = Some w"
proof (cases "go_select order rdy")
  case None
  with assms(1) show ?thesis by (auto dest: go_select_None_D)
next
  case (Some x)
  then have "rdy x" by (rule go_select_ready)
  then have "x = w" by (rule assms(2))
  with Some show ?thesis by simp
qed

lemma go_select_none: "(\<And>v. \<not> rdy v) \<Longrightarrow> go_select order rdy = None"
  by (simp add: go_select_def)

lemma await_ready:
  "go_select (pick_order env) (ready sig dl (fst tc)) = Some w \<Longrightarrow>
   await env sig dl evs tc = (Returns w, tc, dl, evs)"
  by (cases evs) simp_all

lemma await_terminal:
  assumes "term_ch t" and "dl \<noteq> Some True" and "\<not> sig t"
  shows "await env sig dl evs (t, c) = (Returns WTerm, (t, c), dl, evs)"
proof -
  have "go_select (pick_order env) (ready sig dl t) = Some WTerm"
  proof (rule go_select_only)
    show "ready sig dl t WTerm" using assms(1) by simp
  next
    fix v assume "ready sig dl t v"
    with assms(2,3) show "v = WTerm" by (cases v) simp_all
  qed
  then show ?thesis by (simp add: await_ready)
qed

lemma await_terminal_late:
  assumes "term_ch t" and "\<not> sig t"
  shows "fst (await env sig dl evs (t, c)) \<in> {Returns WTerm, Returns WDeadline}
       \<and> snd (await env sig dl evs (t, c)) = ((t, c), dl, evs)"
proof (cases "go_select (pick_order env) (ready sig dl t)")
  case None
  then have "\<not> ready sig dl t WTerm" by (rule go_select_None_D)
  with assms(1) show ?thesis by simp
next
  case (Some w)
  then have "ready sig dl t w" by (rule go_select_ready)
  with assms(2) have "w = WTerm \<or> w = WDeadline" by (cases w) simp_all
  with Some show ?thesis by (auto simp: await_ready)
qed

section \<open>Close\<close>

text \<open>
  Claim C6. \<^verbatim>\<open>Close\<close> on a terminal tunnel returns the stored reason at once, sends
  nothing and changes nothing, so that a repeated \<^verbatim>\<open>Close\<close> returns the same. After
  \<^verbatim>\<open>handleClose\<close> on an open tunnel the stored reason is \<^verbatim>\<open>nil\<close> for an empty text and
  the error \<^verbatim>\<open>remote error: <text>\<close> otherwise. A \<^verbatim>\<open>Close\<close> that starts on the open tunnel
  sends one close message, waits, and returns that same reason once \<^verbatim>\<open>handleClose\<close>
  arrives.
\<close>

theorem Close_returns_stored_reason:
  "(term_ch t \<longrightarrow>
      Close env evs (t, c) = (Returns (stat t), (t, c), evs)
      \<and> Close env evs (fst (snd (Close env evs (t, c)))) = Close env evs (t, c))
   \<and> (\<not> term_ch t \<and> stat t = None \<longrightarrow>
      fst (handleClose reason t) = Returns ()
      \<and> Close env evs (snd (handleClose reason t), c) =
          (Returns (if reason = [] then None else Some (ErrorText (''remote error: '' @ reason))),
           (snd (handleClose reason t), c), evs))
   \<and> (\<not> term_ch t \<and> stat t = None \<and> tx env c (TunnelClose (tunId t)) = None \<longrightarrow>
      Close env (Closing reason # evs) (t, c) =
          (Returns (if reason = [] then None else Some (ErrorText (''remote error: '' @ reason))),
           (snd (handleClose reason t), c\<lparr>wire := wire c @ [TunnelClose (tunId t)]\<rparr>), evs))"
proof (intro conjI impI)
  assume "term_ch t"
  then show 1: "Close env evs (t, c) = (Returns (stat t), (t, c), evs)"
    by (simp add: Close_def)
  then show "Close env evs (fst (snd (Close env evs (t, c)))) = Close env evs (t, c)"
    by simp
next
  assume a: "\<not> term_ch t \<and> stat t = None"
  then show "fst (handleClose reason t) = Returns ()" by (simp add: handleClose_open)
  from a show "Close env evs (snd (handleClose reason t), c) =
          (Returns (if reason = [] then None else Some (ErrorText (''remote error: '' @ reason))),
           (snd (handleClose reason t), c), evs)"
    by (simp add: handleClose_open Close_def)
next
  assume a: "\<not> term_ch t \<and> stat t = None \<and> tx env c (TunnelClose (tunId t)) = None"
  let ?c1 = "c\<lparr>wire := wire c @ [TunnelClose (tunId t)]\<rparr>"
  let ?t1 = "snd (handleClose reason t)"
  from a have s: "conn_send (tx env) (TunnelClose (tunId t)) c = (None, ?c1)"
    by (simp add: conn_send_def)
  from a have n: "go_select (pick_order env) (ready (\<lambda>t. False) None t) = None"
    by (intro go_select_none) (auto elim: ready.elims)
  from a have d: "deliver env (Closing reason) (t, ?c1) = (Returns (), ?t1, ?c1)"
    by (simp add: handleClose_open)
  from a have "term_ch ?t1" by (simp add: handleClose_open)
  then have w: "await env (\<lambda>t. False) None evs (?t1, ?c1) = (Returns WTerm, (?t1, ?c1), None, evs)"
    by (rule await_terminal) simp_all
  from n d w have "await env (\<lambda>t. False) None (Closing reason # evs) (t, ?c1) =
                     (Returns WTerm, (?t1, ?c1), None, evs)"
    by simp
  with a s show "Close env (Closing reason # evs) (t, c) =
          (Returns (if reason = [] then None else Some (ErrorText (''remote error: '' @ reason))),
           (?t1, ?c1), evs)"
    by (simp add: Close_def handleClose_open)
qed

theorem Close_returns_stored_reason_witness:
  "Close quiet_env [] (snd (handleClose '''' (fresh_tunnel 0)), idle_conn)
     = (Returns None, (snd (handleClose '''' (fresh_tunnel 0)), idle_conn), [])
   \<and> Close quiet_env [] (snd (handleClose ''peer crashed'' (fresh_tunnel 0)), idle_conn)
     = (Returns (Some (ErrorText ''remote error: peer crashed'')),
        (snd (handleClose ''peer crashed'' (fresh_tunnel 0)), idle_conn), [])
   \<and> wire (snd (fst (snd (Close quiet_env [] (snd (handleClose ''peer crashed'' (fresh_tunnel 0)), idle_conn))))) = []
   \<and> Close quiet_env [Closing ''peer crashed''] (fresh_tunnel 0, idle_conn)
     = (Returns (Some (ErrorText ''remote error: peer crashed'')),
        (snd (handleClose ''peer crashed'' (fresh_tunnel 0)), idle_conn\<lparr>wire := [TunnelClose 0]\<rparr>), [])"
proof -
  have o: "\<not> term_ch (fresh_tunnel 0) \<and> stat (fresh_tunnel 0) = None"
    by (simp add: fresh_tunnel_def)
  have x: "\<not> term_ch (fresh_tunnel 0) \<and> stat (fresh_tunnel 0) = None
           \<and> tx quiet_env idle_conn (TunnelClose (tunId (fresh_tunnel 0))) = None"
    by (simp add: fresh_tunnel_def quiet_env_def tx_ok_def)
  note g = Close_returns_stored_reason [of "fresh_tunnel 0" quiet_env "[]" idle_conn "''''",
      THEN conjunct2, THEN conjunct1, rule_format, OF o, THEN conjunct2]
  note p = Close_returns_stored_reason [of "fresh_tunnel 0" quiet_env "[]" idle_conn "''peer crashed''",
      THEN conjunct2, THEN conjunct1, rule_format, OF o, THEN conjunct2]
  note b = Close_returns_stored_reason [of "fresh_tunnel 0" quiet_env "[]" idle_conn "''peer crashed''",
      THEN conjunct2, THEN conjunct2, rule_format, OF x]
  from g p b show ?thesis
    by (simp add: idle_conn_def fresh_tunnel_def)
qed

section \<open>Send and Recv on a terminal tunnel\<close>

lemma go_slice_first: "go_slice message 0 e = take (nat e) message"
  by (simp add: go_slice_def)

lemma sendChunk_covered:
  assumes "int (length chunk) \<le> atoiSpace t"
  shows "sendChunk env chunk sizeOrCont dl evs (t, c) =
           (case conn_send (tx env) (TunnelTransfer (tunId t) sizeOrCont chunk) c of
              (err, c1) \<Rightarrow> (Returns err, (t\<lparr>atoiSpace := go_int (atoiSpace t - int (length chunk))\<rparr>, c1), dl, evs))"
  using assms by (simp add: sendChunk.simps drainAllowance_def)

lemma sendChunk_terminal:
  assumes "atoiSpace t < int (length chunk)" and "term_ch t"
  shows "(dl \<noteq> Some True \<longrightarrow>
            sendChunk env chunk sizeOrCont dl evs (t, c) =
              (Returns (Some ErrClosed), (t\<lparr>atoiSign := False\<rparr>, c), dl, evs))
       \<and> fst (sendChunk env chunk sizeOrCont dl evs (t, c)) \<in> {Returns (Some ErrClosed), Returns (Some ErrTimeout)}
       \<and> snd (sendChunk env chunk sizeOrCont dl evs (t, c)) = ((t\<lparr>atoiSign := False\<rparr>, c), dl, evs)"
proof -
  let ?t1 = "t\<lparr>atoiSign := False\<rparr>"
  from assms(1) have d: "drainAllowance (int (length chunk)) t = (False, ?t1)"
    by (simp add: drainAllowance_def)
  have tm: "term_ch ?t1" "\<not> atoiSign ?t1" using assms(2) by simp_all
  obtain w where w: "await env atoiSign dl evs (?t1, c) = (Returns w, (?t1, c), dl, evs)"
    and ww: "w = WTerm \<or> w = WDeadline"
    using await_terminal_late [where sig = atoiSign and t = ?t1 and env = env and dl = dl and evs = evs and c = c] tm
    by (cases "await env atoiSign dl evs (?t1, c)") auto
  have e: "dl \<noteq> Some True \<Longrightarrow> await env atoiSign dl evs (?t1, c) = (Returns WTerm, (?t1, c), dl, evs)"
    using tm by (intro await_terminal) simp_all
  show ?thesis
  proof (intro conjI impI)
    assume "dl \<noteq> Some True"
    from e [OF this] d
    show "sendChunk env chunk sizeOrCont dl evs (t, c) = (Returns (Some ErrClosed), (?t1, c), dl, evs)"
      by (simp add: sendChunk.simps)
  next
    from ww w d
    show "fst (sendChunk env chunk sizeOrCont dl evs (t, c)) \<in> {Returns (Some ErrClosed), Returns (Some ErrTimeout)}"
      by (auto simp: sendChunk.simps)
  next
    from ww w d
    show "snd (sendChunk env chunk sizeOrCont dl evs (t, c)) = ((?t1, c), dl, evs)"
      by (auto simp: sendChunk.simps)
  qed
qed

text \<open>
  Claim C2, as amended. On a terminal tunnel a \<^verbatim>\<open>Send\<close> whose first chunk is not covered
  by the credit, and a \<^verbatim>\<open>Recv\<close> that finds the inbound queue empty, fail with
  \<^verbatim>\<open>ErrClosed\<close> without waiting for anything and without sending or delivering anything,
  provided the timer of the call has not fired already (it never does for a zero timeout).
  If it has fired, the call fails with \<^verbatim>\<open>ErrClosed\<close> or \<^verbatim>\<open>ErrTimeout\<close>, whichever the
  \<^verbatim>\<open>select\<close> picks.
\<close>

theorem terminal_Send_Recv_fail_Closed:
  assumes "term_ch t"
  shows "(message \<noteq> [] \<and> 1 \<le> chunkLimit t \<and> atoiSpace t < min (chunkLimit t) (int (length message)) \<longrightarrow>
            (timeout = 0 \<or> \<not> late env \<longrightarrow>
               Send (Suc fuel) env message timeout evs (t, c) =
                 Some (Returns (Some ErrClosed), (t\<lparr>atoiSign := False\<rparr>, c), evs))
            \<and> (\<exists>r. Send (Suc fuel) env message timeout evs (t, c) = Some (Returns (Some r), (t\<lparr>atoiSign := False\<rparr>, c), evs)
                    \<and> (r = ErrClosed \<or> r = ErrTimeout)))
       \<and> (itoaBuf t = [] \<longrightarrow>
            (timeout = 0 \<or> \<not> late env \<longrightarrow>
               Recv env timeout evs (t, c) = (Returns (None, Some ErrClosed), (t\<lparr>itoaSign := False\<rparr>, c), evs))
            \<and> (\<exists>r. Recv env timeout evs (t, c) = (Returns (None, Some r), (t\<lparr>itoaSign := False\<rparr>, c), evs)
                    \<and> (r = ErrClosed \<or> r = ErrTimeout)))"
proof (intro conjI impI)
  assume a: "message \<noteq> [] \<and> 1 \<le> chunkLimit t \<and> atoiSpace t < min (chunkLimit t) (int (length message))"
  let ?L = "int (length message)"
  let ?e = "if chunkLimit t > ?L then ?L else chunkLimit t"
  let ?dl = "if timeout \<noteq> 0 then Some (late env) else None"
  let ?chunk = "go_slice message 0 ?e"
  from a have len: "int (length ?chunk) = min (chunkLimit t) ?L"
    by (auto simp: go_slice_first)
  with a have short: "atoiSpace t < int (length ?chunk)" by simp
  note sc = sendChunk_terminal [OF short assms, of ?dl env ?L evs c]
  from a have pos: "0 < ?L" "\<not> ?e < 0" by auto
  {
    assume "timeout = 0 \<or> \<not> late env"
    then have "?dl \<noteq> Some True" by auto
    with sc have "sendChunk env ?chunk ?L ?dl evs (t, c) =
                    (Returns (Some ErrClosed), (t\<lparr>atoiSign := False\<rparr>, c), ?dl, evs)"
      by blast
    with a pos show "Send (Suc fuel) env message timeout evs (t, c) =
                   Some (Returns (Some ErrClosed), (t\<lparr>atoiSign := False\<rparr>, c), evs)"
      by (simp add: Send_def Let_def)
  }
  from sc obtain r where r: "sendChunk env ?chunk ?L ?dl evs (t, c) =
      (Returns (Some r), (t\<lparr>atoiSign := False\<rparr>, c), ?dl, evs)" "r = ErrClosed \<or> r = ErrTimeout"
    by (cases "sendChunk env ?chunk ?L ?dl evs (t, c)") auto
  with a pos have "Send (Suc fuel) env message timeout evs (t, c) =
                   Some (Returns (Some r), (t\<lparr>atoiSign := False\<rparr>, c), evs)"
    by (simp add: Send_def Let_def)
  with r(2) show "\<exists>r. Send (Suc fuel) env message timeout evs (t, c) = Some (Returns (Some r), (t\<lparr>atoiSign := False\<rparr>, c), evs)
                    \<and> (r = ErrClosed \<or> r = ErrTimeout)"
    by blast
next
  assume q: "itoaBuf t = []"
  let ?t1 = "t\<lparr>itoaSign := False\<rparr>"
  let ?dl = "if timeout \<noteq> 0 then Some (late env) else None"
  from q have f: "fetchMessage (t, c) = (None, ?t1, c)" by simp
  have tm: "term_ch ?t1" "\<not> itoaSign ?t1" using assms by simp_all
  {
    assume "timeout = 0 \<or> \<not> late env"
    then have "?dl \<noteq> Some True" by auto
    with tm have "await env itoaSign ?dl evs (?t1, c) = (Returns WTerm, (?t1, c), ?dl, evs)"
      by (intro await_terminal) simp_all
    with f show "Recv env timeout evs (t, c) = (Returns (None, Some ErrClosed), (?t1, c), evs)"
      by (simp add: Recv_def)
  }
  obtain w where w: "await env itoaSign ?dl evs (?t1, c) = (Returns w, (?t1, c), ?dl, evs)"
    and ww: "w = WTerm \<or> w = WDeadline"
    using await_terminal_late [where sig = itoaSign and t = ?t1 and env = env and dl = ?dl and evs = evs and c = c] tm
    by (cases "await env itoaSign ?dl evs (?t1, c)") auto
  from ww w f
  show "\<exists>r. Recv env timeout evs (t, c) = (Returns (None, Some r), (?t1, c), evs)
           \<and> (r = ErrClosed \<or> r = ErrTimeout)"
    by (auto simp: Recv_def)
qed
theorem terminal_Send_Recv_witness:
  "term_ch ((fresh_tunnel 0)\<lparr>chunkLimit := 4, term_ch := True\<rparr>)
   \<and> Send (Suc 0) quiet_env ''HELLOWORLD'' 0 [] ((fresh_tunnel 0)\<lparr>chunkLimit := 4, term_ch := True\<rparr>, idle_conn)
       = Some (Returns (Some ErrClosed), ((fresh_tunnel 0)\<lparr>chunkLimit := 4, term_ch := True\<rparr>, idle_conn), [])
   \<and> Recv quiet_env 0 [] ((fresh_tunnel 0)\<lparr>chunkLimit := 4, term_ch := True\<rparr>, idle_conn)
       = (Returns (None, Some ErrClosed), ((fresh_tunnel 0)\<lparr>chunkLimit := 4, term_ch := True\<rparr>, idle_conn), [])"
proof -
  let ?t = "(fresh_tunnel 0)\<lparr>chunkLimit := 4, term_ch := True\<rparr>"
  have tm: "term_ch ?t" by simp
  have s: "''HELLOWORLD'' \<noteq> [] \<and> 1 \<le> chunkLimit ?t
           \<and> atoiSpace ?t < min (chunkLimit ?t) (int (length ''HELLOWORLD''))"
    by (simp add: fresh_tunnel_def)
  have q: "itoaBuf ?t = []" by (simp add: fresh_tunnel_def)
  have z: "(0::int) = 0 \<or> \<not> late quiet_env" by simp
  note th = terminal_Send_Recv_fail_Closed [OF tm, of "''HELLOWORLD''" 0 quiet_env 0 "[]" idle_conn]
  from th [THEN conjunct1, rule_format, OF s, THEN conjunct1, rule_format, OF z]
       th [THEN conjunct2, rule_format, OF q, THEN conjunct1, rule_format, OF z]
  show ?thesis by (simp add: fresh_tunnel_def)
qed

text \<open>
  Claim C2 as stated fails. On a terminal tunnel that still has credit, \<^verbatim>\<open>Send\<close> hands all
  three chunks to the connection and returns \<^verbatim>\<open>nil\<close>; on a terminal tunnel with a
  buffered message, \<^verbatim>\<open>Recv\<close> returns the message with a \<^verbatim>\<open>nil\<close> error.
\<close>

theorem terminal_Send_Recv_counterexample:
  "term_ch ((fresh_tunnel 0)\<lparr>chunkLimit := 4, itoaBuf := [Some \<lparr>cap = 2, elems = ''hi''\<rparr>], atoiSpace := 10, term_ch := True\<rparr>)
   \<and> Send (Suc (Suc (Suc 0))) quiet_env ''HELLOWORLD'' 0 []
        ((fresh_tunnel 0)\<lparr>chunkLimit := 4, itoaBuf := [Some \<lparr>cap = 2, elems = ''hi''\<rparr>], atoiSpace := 10, term_ch := True\<rparr>, idle_conn)
       = Some (Returns None,
               ((fresh_tunnel 0)\<lparr>chunkLimit := 4, itoaBuf := [Some \<lparr>cap = 2, elems = ''hi''\<rparr>], atoiSpace := 0, term_ch := True\<rparr>,
                idle_conn\<lparr>wire := [TunnelTransfer 0 10 ''HELL'', TunnelTransfer 0 0 ''OWOR'', TunnelTransfer 0 0 ''LD'']\<rparr>),
               [])
   \<and> Recv quiet_env 0 []
        ((fresh_tunnel 0)\<lparr>chunkLimit := 4, itoaBuf := [Some \<lparr>cap = 2, elems = ''hi''\<rparr>], atoiSpace := 10, term_ch := True\<rparr>, idle_conn)
       = (Returns (Some \<lparr>cap = 2, elems = ''hi''\<rparr>, None),
          ((fresh_tunnel 0)\<lparr>chunkLimit := 4, itoaBuf := [], atoiSpace := 10, term_ch := True\<rparr>,
           idle_conn\<lparr>spawned := [TunnelAllowance 0 2]\<rparr>),
          [])"
  by (simp add: Send_def Recv_def sendChunk.simps drainAllowance_def conn_send_def go_slice_def
      go_int_def go_spawn_def go_len_def fresh_tunnel_def idle_conn_def quiet_env_def tx_ok_def)

section \<open>Handlers and blocking\<close>




section \<open>Initiating a tunnel\<close>

lemma newTunnel_live:
  "tunLive c = Some live \<Longrightarrow>
   newTunnel c = (Inr (fresh_tunnel (tunIdx c)),
                  c\<lparr>tunIdx := (tunIdx c + 1) mod 18446744073709551616,
                    tunLive := Some (live(tunIdx c \<mapsto> fresh_tunnel (tunIdx c)))\<rparr>)"
  by (simp add: newTunnel_def Let_def)

lemma handleInitResult_receiving:
  "handleInitResult limit ((fresh_tunnel i)\<lparr>init_ch := Receiving\<rparr>) =
     (Returns (), (if limit > 0 then (fresh_tunnel i)\<lparr>chunkLimit := limit, init_ch := Handed True\<rparr>
                   else (fresh_tunnel i)\<lparr>init_ch := Handed False\<rparr>))"
  by (simp add: handleInitResult_def fresh_tunnel_def)

lemma initTunnel_registered:
  assumes "cluster \<noteq> []" and "1 \<le> go_quot timeout 1000000" and "tunLive c = Some live"
  shows "initTunnel env buffer iw cluster timeout c =
     (let i = tunIdx c;
          c1 = c\<lparr>tunIdx := (i + 1) mod 18446744073709551616,
                 tunLive := Some (live(i \<mapsto> fresh_tunnel i))\<rparr>
      in case conn_send (tx env) (TunnelInit i cluster (go_quot timeout 1000000)) c1 of
           (Some err, c2) \<Rightarrow> (Returns (Inl err), unregister i c2)
         | (None, c2) \<Rightarrow>
             (case iw of
                None \<Rightarrow> (Blocks, registered ((fresh_tunnel i)\<lparr>init_ch := Receiving\<rparr>) c2)
              | Some ConnTerm \<Rightarrow> (Returns (Inl ErrClosed), unregister i c2)
              | Some (InitResult limit) \<Rightarrow>
                  (if limit > 0 then
                     (case conn_send (tx env) (TunnelAllowance i buffer)
                             (registered ((fresh_tunnel i)\<lparr>chunkLimit := limit\<rparr>) c2) of
                        (None, c3) \<Rightarrow> (Returns (Inr ((fresh_tunnel i)\<lparr>chunkLimit := limit\<rparr>)), c3)
                      | (Some err, c3) \<Rightarrow> (Returns (Inl err), unregister i c3))
                   else (Returns (Inl ErrTimeout), unregister i c2))))"
proof -
  have f: "tunId (fresh_tunnel (tunIdx c)) = tunIdx c" by (simp add: fresh_tunnel_def)
  have i: "(fresh_tunnel (tunIdx c))\<lparr>chunkLimit := limit, init_ch := Handed True, init_ch := Idle\<rparr>
           = (fresh_tunnel (tunIdx c))\<lparr>chunkLimit := limit\<rparr>" for limit
    by (simp add: fresh_tunnel_def)
  from assms show ?thesis
    by (simp add: initTunnel_def Let_def newTunnel_live handleInitResult_receiving f i
        split: prod.splits option.splits init_wake.splits)
qed

text \<open>
  Claim C8. Once \<^verbatim>\<open>initTunnel\<close> has registered the pending tunnel (the arguments are
  valid and the connection is up), every way it can fail leaves the registry as it was
  before the call with the new id removed, and hands no tunnel to the caller: a failed
  send of the init message and a failed send of the initial allowance fail with the
  transport's error, a negative verdict with \<^verbatim>\<open>ErrTimeout\<close>, a terminated connection with
  \<^verbatim>\<open>ErrClosed\<close>. A tunnel is handed over only after a positive verdict and a successful
  allowance send, and then it is the registered one.
\<close>

theorem initTunnel_failure_unregisters:
  assumes "cluster \<noteq> []" and "1 \<le> go_quot timeout 1000000" and "tunLive c = Some live"
  shows "(\<forall>err c'. initTunnel env buffer iw cluster timeout c = (Returns (Inl err), c')
            \<longrightarrow> tunLive c' = Some (live(tunIdx c := None)))
       \<and> (\<forall>tun c'. initTunnel env buffer iw cluster timeout c = (Returns (Inr tun), c')
            \<longrightarrow> (\<exists>limit>0. iw = Some (InitResult limit) \<and> tun = (fresh_tunnel (tunIdx c))\<lparr>chunkLimit := limit\<rparr>)
                \<and> tunLive c' = Some (live(tunIdx c \<mapsto> tun))
                \<and> wire c' = wire c @ [TunnelInit (tunIdx c) cluster (go_quot timeout 1000000),
                                       TunnelAllowance (tunIdx c) buffer])
       \<and> ((\<forall>x. tx env x (TunnelInit (tunIdx c) cluster (go_quot timeout 1000000)) = Some e)
            \<longrightarrow> fst (initTunnel env buffer iw cluster timeout c) = Returns (Inl e))
       \<and> ((\<forall>x. tx env x (TunnelInit (tunIdx c) cluster (go_quot timeout 1000000)) = None)
            \<longrightarrow> (iw = Some ConnTerm \<longrightarrow> fst (initTunnel env buffer iw cluster timeout c) = Returns (Inl ErrClosed))
              \<and> (\<forall>limit\<le>0. iw = Some (InitResult limit) \<longrightarrow>
                    fst (initTunnel env buffer iw cluster timeout c) = Returns (Inl ErrTimeout))
              \<and> (\<forall>limit>0. iw = Some (InitResult limit) \<and> (\<forall>x. tx env x (TunnelAllowance (tunIdx c) buffer) = Some e) \<longrightarrow>
                    fst (initTunnel env buffer iw cluster timeout c) = Returns (Inl e)))"
proof -
  note r = initTunnel_registered [OF assms, of env buffer iw]
  have f: "tunId (fresh_tunnel (tunIdx c)) = tunIdx c" by (simp add: fresh_tunnel_def)
  show ?thesis
  proof (intro conjI allI impI)
    fix err c'
    assume "initTunnel env buffer iw cluster timeout c = (Returns (Inl err), c')"
    then show "tunLive c' = Some (live(tunIdx c := None))"
      unfolding r
      by (auto simp: Let_def conn_send_def unregister_def registered_def f
          split: option.splits init_wake.splits if_splits)
  next
    fix tun c'
    assume s: "initTunnel env buffer iw cluster timeout c = (Returns (Inr tun), c')"
    from s show "\<exists>limit>0. iw = Some (InitResult limit) \<and> tun = (fresh_tunnel (tunIdx c))\<lparr>chunkLimit := limit\<rparr>"
      unfolding r
      by (auto simp: Let_def conn_send_def split: option.splits init_wake.splits if_splits)
    from s show "tunLive c' = Some (live(tunIdx c \<mapsto> tun))"
      unfolding r
      by (auto simp: Let_def conn_send_def registered_def f split: option.splits init_wake.splits if_splits)
    from s show "wire c' = wire c @ [TunnelInit (tunIdx c) cluster (go_quot timeout 1000000),
                                       TunnelAllowance (tunIdx c) buffer]"
      unfolding r
      by (auto simp: Let_def conn_send_def registered_def f split: option.splits init_wake.splits if_splits)
  next
    assume "\<forall>x. tx env x (TunnelInit (tunIdx c) cluster (go_quot timeout 1000000)) = Some e"
    then show "fst (initTunnel env buffer iw cluster timeout c) = Returns (Inl e)"
      unfolding r by (simp add: Let_def conn_send_def)
  next
    assume "\<forall>x. tx env x (TunnelInit (tunIdx c) cluster (go_quot timeout 1000000)) = None" "iw = Some ConnTerm"
    then show "fst (initTunnel env buffer iw cluster timeout c) = Returns (Inl ErrClosed)"
      unfolding r by (simp add: Let_def conn_send_def)
  next
    fix limit :: int
    assume "\<forall>x. tx env x (TunnelInit (tunIdx c) cluster (go_quot timeout 1000000)) = None"
      "limit \<le> 0" "iw = Some (InitResult limit)"
    then show "fst (initTunnel env buffer iw cluster timeout c) = Returns (Inl ErrTimeout)"
      unfolding r by (simp add: Let_def conn_send_def)
  next
    fix limit :: int
    assume "\<forall>x. tx env x (TunnelInit (tunIdx c) cluster (go_quot timeout 1000000)) = None"
      "0 < limit" "iw = Some (InitResult limit) \<and> (\<forall>x. tx env x (TunnelAllowance (tunIdx c) buffer) = Some e)"
    then show "fst (initTunnel env buffer iw cluster timeout c) = Returns (Inl e)"
      unfolding r by (simp add: Let_def conn_send_def)
  qed
qed
theorem initTunnel_failure_witness:
  "fst (initTunnel lossy_env 65536 (Some (InitResult 4)) ''echo'' 1000000000 idle_conn)
     = Returns (Inl (ErrorText ''broken pipe''))
   \<and> tunLive (snd (initTunnel lossy_env 65536 (Some (InitResult 4)) ''echo'' 1000000000 idle_conn))
     = Some (Map.empty(0 := None))
   \<and> fst (initTunnel quiet_env 65536 (Some ConnTerm) ''echo'' 1000000000 idle_conn) = Returns (Inl ErrClosed)
   \<and> fst (initTunnel quiet_env 65536 (Some (InitResult 0)) ''echo'' 1000000000 idle_conn) = Returns (Inl ErrTimeout)
   \<and> fst (initTunnel quiet_env 65536 (Some (InitResult 4)) ''echo'' 1000000000 idle_conn)
     = Returns (Inr ((fresh_tunnel 0)\<lparr>chunkLimit := 4\<rparr>))"
proof -
  have a: "''echo'' \<noteq> []" "1 \<le> go_quot 1000000000 1000000" "tunLive idle_conn = Some Map.empty"
    by (simp_all add: go_quot_def idle_conn_def)
  have i: "tunIdx idle_conn = 0" by (simp add: idle_conn_def)
  obtain r c' where v: "initTunnel lossy_env 65536 (Some (InitResult 4)) ''echo'' 1000000000 idle_conn = (r, c')"
    by (cases "initTunnel lossy_env 65536 (Some (InitResult 4)) ''echo'' 1000000000 idle_conn")
  have ok: "\<forall>x. tx lossy_env x (TunnelInit (tunIdx idle_conn) ''echo'' (go_quot 1000000000 1000000)) = None"
    and bad: "\<forall>x. tx lossy_env x (TunnelAllowance (tunIdx idle_conn) 65536) = Some (ErrorText ''broken pipe'')"
    and okq: "\<forall>x. tx quiet_env x (TunnelInit (tunIdx idle_conn) ''echo'' (go_quot 1000000000 1000000)) = None"
    by (simp_all add: lossy_env_def quiet_env_def tx_ok_def)
  note lossy = initTunnel_failure_unregisters [OF a, of lossy_env 65536 "Some (InitResult 4)" "ErrorText ''broken pipe''"]
  note quiet = initTunnel_failure_unregisters [OF a, of quiet_env 65536 _ ErrClosed]
  have p4: "(0::int) < 4" and n0: "(0::int) \<le> 0" by simp_all
  from lossy ok bad p4
  have "fst (initTunnel lossy_env 65536 (Some (InitResult 4)) ''echo'' 1000000000 idle_conn)
          = Returns (Inl (ErrorText ''broken pipe''))"
    by blast
  with v have 1: "r = Returns (Inl (ErrorText ''broken pipe''))" by simp
  from lossy v 1 have "tunLive c' = Some (Map.empty(tunIdx idle_conn := None))" by blast
  then have 2: "tunLive c' = Some (Map.empty(0 := None))" by (simp add: i)
  from quiet [of "Some ConnTerm"] okq
  have 3: "fst (initTunnel quiet_env 65536 (Some ConnTerm) ''echo'' 1000000000 idle_conn) = Returns (Inl ErrClosed)"
    by blast
  from quiet [of "Some (InitResult 0)"] okq n0
  have 4: "fst (initTunnel quiet_env 65536 (Some (InitResult 0)) ''echo'' 1000000000 idle_conn) = Returns (Inl ErrTimeout)"
    by blast
  have 5: "fst (initTunnel quiet_env 65536 (Some (InitResult 4)) ''echo'' 1000000000 idle_conn)
     = Returns (Inr ((fresh_tunnel 0)\<lparr>chunkLimit := 4\<rparr>))"
    by (simp add: initTunnel_registered [OF a] Let_def conn_send_def quiet_env_def tx_ok_def i)
  from 1 2 3 4 5 v show ?thesis by simp
qed

section \<open>What a chunk send leaves unchanged\<close>

lemma deliver_keeps:
  assumes "deliver env e (t, c) = (r, t', c')"
  shows "tunId t' = tunId t \<and> chunkLimit t' = chunkLimit t \<and> wire c' = wire c"
proof (cases e)
  case (Allowance space)
  with assms show ?thesis by (auto simp: handleAllowance_def)
next
  case (Transfer sz chunk)
  with assms show ?thesis
    by (auto simp: handleTransfer.simps Let_def go_spawn_def split: if_splits)
next
  case (Closing reason)
  with assms show ?thesis
    by (auto simp: handleClose_def Let_def split: if_splits)
next
  case Tick
  with assms show ?thesis by auto
qed

lemma await_keeps:
  "await env sig dl evs (t, c) = (r, (t', c'), dl', evs') \<Longrightarrow>
   tunId t' = tunId t \<and> chunkLimit t' = chunkLimit t \<and> wire c' = wire c"
proof (induction evs arbitrary: t c dl)
  case Nil
  then show ?case by (auto split: option.splits)
next
  case (Cons e evs)
  show ?case
  proof (cases "go_select (pick_order env) (ready sig dl t)")
    case (Some w)
    with Cons.prems show ?thesis by simp
  next
    case None
    obtain o1 t1 c1 where d: "deliver env e (t, c) = (o1, t1, c1)"
      by (cases "deliver env e (t, c)") auto
    note k = deliver_keeps [OF d]
    show ?thesis
    proof (cases o1)
      case (Returns u)
      with Cons.prems None d have "await env sig (fire e dl) evs (t1, c1) = (r, (t', c'), dl', evs')"
        by simp
      from Cons.IH [OF this] k show ?thesis by simp
    next
      case (Panics m)
      with Cons.prems None d k show ?thesis by auto
    next
      case Blocks
      with Cons.prems None d k show ?thesis by auto
    qed
  qed
qed

lemma sendChunk_retry:
  assumes "drainAllowance (int (length chunk)) t = (False, t1)"
    and "await env atoiSign dl evs (t1, c) = (Returns WSign, (t2, c2), dl2, evs2)"
  shows "sendChunk env chunk sz dl evs (t, c) =
         sendChunk env chunk sz dl2 evs2 (t2\<lparr>atoiSign := False\<rparr>, c2)"
  by (subst sendChunk.simps) (simp add: assms)

lemma sendChunk_keeps:
  "sendChunk env chunk sz dl evs (t, c) = (r, (t', c'), dl', evs') \<Longrightarrow>
   tunId t' = tunId t \<and> chunkLimit t' = chunkLimit t
   \<and> wire c' = (if r = Returns None then wire c @ [TunnelTransfer (tunId t) sz chunk] else wire c)"
proof (induction "length evs" arbitrary: evs t c dl rule: less_induct)
  case less
  obtain b t1 where d: "drainAllowance (int (length chunk)) t = (b, t1)"
    by (cases "drainAllowance (int (length chunk)) t")
  then have t1: "tunId t1 = tunId t" "chunkLimit t1 = chunkLimit t" "b \<or> \<not> atoiSign t1"
    by (auto simp: drainAllowance_def split: if_splits)
  show ?case
  proof (cases b)
    case True
    with less.prems d t1 show ?thesis
      by (auto simp: sendChunk.simps conn_send_def split: option.splits)
  next
    case False
    obtain o2 t2 c2 dl2 evs2 where a: "await env atoiSign dl evs (t1, c) = (o2, (t2, c2), dl2, evs2)"
      by (cases "await env atoiSign dl evs (t1, c)") auto
    note k = await_keeps [OF a]
    show ?thesis
    proof (cases o2)
      case (Returns w)
      show ?thesis
      proof (cases w)
        case WTerm
        with less.prems d False a Returns k t1 show ?thesis by (auto simp: sendChunk.simps)
      next
        case WDeadline
        with less.prems d False a Returns k t1 show ?thesis by (auto simp: sendChunk.simps)
      next
        case WSign
        with a Returns False t1 have "length evs2 < length evs"
          by (intro await_sign_consumes [of env atoiSign dl evs "(t1, c)"]) simp_all
        moreover from less.prems d False a Returns WSign
        have "sendChunk env chunk sz dl2 evs2 (t2\<lparr>atoiSign := False\<rparr>, c2) = (r, (t', c'), dl', evs')"
          by (simp add: sendChunk_retry)
        ultimately have "tunId t' = tunId (t2\<lparr>atoiSign := False\<rparr>) \<and> chunkLimit t' = chunkLimit (t2\<lparr>atoiSign := False\<rparr>)
          \<and> wire c' = (if r = Returns None then wire c2 @ [TunnelTransfer (tunId (t2\<lparr>atoiSign := False\<rparr>)) sz chunk] else wire c2)"
          by (rule less.hyps)
        with k t1 show ?thesis by simp
      qed
    next
      case (Panics m)
      with less.prems d False a k t1 show ?thesis by (auto simp: sendChunk.simps)
    next
      case Blocks
      with less.prems d False a k t1 show ?thesis by (auto simp: sendChunk.simps)
    qed
  qed
qed

section \<open>The chunks of a message\<close>

lemma chunks_Nil: "chunks n [] = []"
  by (simp add: chunks.simps)

lemma chunks_done: "length xs \<le> k \<Longrightarrow> chunks n (drop k xs) = []"
  by (simp add: chunks.simps)

lemma chunks_step:
  "0 < n \<Longrightarrow> xs \<noteq> [] \<Longrightarrow> chunks n xs = take n xs # chunks n (drop n xs)"
  by (subst chunks.simps) simp

lemma concat_chunks: "0 < n \<Longrightarrow> concat (chunks n xs) = xs"
proof (induction n xs rule: chunks.induct)
  case (1 n xs)
  show ?case
  proof (cases "xs = []")
    case True
    then show ?thesis by (simp add: chunks_Nil)
  next
    case False
    with 1 show ?thesis by (simp add: chunks_step)
  qed
qed

lemma chunks_bounded:
  "0 < n \<Longrightarrow> ch \<in> set (chunks n xs) \<Longrightarrow> ch \<noteq> [] \<and> length ch \<le> n"
proof (induction n xs rule: chunks.induct)
  case (1 n xs)
  show ?case
  proof (cases "xs = []")
    case True
    with "1.prems" show ?thesis by (simp add: chunks_Nil)
  next
    case False
    with 1 show ?thesis by (auto simp: chunks_step)
  qed
qed

lemma length_chunks: "0 < n \<Longrightarrow> length (chunks n xs) = (length xs + n - 1) div n"
proof (induction n xs rule: chunks.induct)
  case (1 n xs)
  note n = \<open>0 < n\<close>
  show ?case
  proof (cases "xs = []")
    case True
    from n have "(n - 1) div n = 0" by simp
    with True show ?thesis by (simp add: chunks_Nil)
  next
    case False
    from "1.IH" False n
    have ih: "length (chunks n (drop n xs)) = (length (drop n xs) + n - 1) div n" by blast
    have "chunks n xs = take n xs # chunks n (drop n xs)" using n False by (rule chunks_step)
    then have st: "length (chunks n xs) = Suc (length (chunks n (drop n xs)))" by simp
    define m where "m = length (drop n xs)"
    show ?thesis
    proof (cases "n \<le> length xs")
      case True
      then have lx: "length xs = m + n" by (simp add: m_def)
      define a where "a = m + n - 1"
      from n have "m + n + n - 1 = a + n" unfolding a_def by arith
      moreover have "(a + n) div n = Suc (a div n)" using div_add_self2 [of n a] n by simp
      ultimately have "(m + n + n - 1) div n = Suc (a div n)" by (simp only:)
      then have "(length xs + n - 1) div n = Suc ((m + n - 1) div n)" by (simp only: lx a_def)
      moreover from st ih have "length (chunks n xs) = Suc ((m + n - 1) div n)"
        by (simp only: m_def)
      ultimately show ?thesis by (simp only:)
    next
      case short: False
      from False have "0 < length xs" by simp
      with short have "n \<le> length xs + n - 1" "length xs + n - 1 < 2 * n" by arith+
      then have one: "(length xs + n - 1) div n = 1" by (intro div_nat_eqI) arith+
      from short have "m = 0" by (simp add: m_def)
      with n have "(m + n - 1) div n = 0" by simp
      with st ih have "length (chunks n xs) = Suc 0" by (simp only: m_def)
      with one show ?thesis by (simp only: One_nat_def)
    qed
  qed
qed

lemma tagged_step:
  "0 < n \<Longrightarrow> message \<noteq> [] \<Longrightarrow>
   tagged n message = (int (length message), take n message) # map (Pair 0) (chunks n (drop n message))"
  by (simp add: tagged_def chunks_step)

lemma length_tagged: "length (tagged n message) = length (chunks n message)"
  by (simp add: tagged_def split: list.splits)

lemma map_snd_tagged: "map snd (tagged n message) = chunks n message"
  by (simp add: tagged_def comp_def split: list.splits)

lemma map_fst_tagged:
  "0 < n \<Longrightarrow> message \<noteq> [] \<Longrightarrow>
   map fst (tagged n message) = int (length message) # replicate (length (tagged n message) - 1) 0"
  by (simp add: tagged_step comp_def map_replicate_const)

lemma transfers_of_transfer: "transfers_of (map (transfer i) ps) = ps"
  by (induction ps) (simp_all add: transfer_def)

section \<open>The loop of Send\<close>

lemma go_slice_chunk:
  assumes "0 \<le> pos" and "pos < int (length message)" and "1 \<le> limit"
  shows "go_slice message pos (if pos + limit > int (length message) then int (length message) else pos + limit)
         = take (nat limit) (drop (nat pos) message)"
proof (cases "pos + limit > int (length message)")
  case True
  with assms have "length (drop (nat pos) message) \<le> nat limit" by simp
  moreover from assms have "nat (int (length message) - pos) = length (drop (nat pos) message)"
    by simp
  ultimately show ?thesis using True by (simp add: go_slice_def)
next
  case False
  then show ?thesis by (simp add: go_slice_def)
qed

text \<open>What is still to be sent when the loop stands at \<open>pos\<close>.\<close>

lemma to_send_step:
  assumes "0 \<le> pos" and "pos < int (length message)" and "1 \<le> limit"
  shows "(if pos = 0 then tagged (nat limit) message
          else map (Pair 0) (chunks (nat limit) (drop (nat pos) message)))
       = ((if pos \<noteq> 0 then 0 else int (length message)), take (nat limit) (drop (nat pos) message))
         # map (Pair 0) (chunks (nat limit) (drop (nat (pos + limit)) message))"
proof -
  from assms have ne: "drop (nat pos) message \<noteq> []" by simp
  from assms have n: "0 < nat limit" by simp
  from assms have d: "drop (nat (pos + limit)) message = drop (nat limit) (drop (nat pos) message)"
    by (simp add: nat_add_distrib add.commute)
  show ?thesis
  proof (cases "pos = 0")
    case True
    with ne n show ?thesis by (simp add: tagged_step)
  next
    case False
    with ne n d show ?thesis by (simp add: chunks_step)
  qed
qed

lemma Send_loop_wire:
  assumes "1 \<le> chunkLimit t" and "0 \<le> pos"
    and "Send_loop fuel env message pos dl evs (t, c) = Some (r, (t', c'), dl', evs')"
  shows "\<exists>k\<le>length (if pos = 0 then tagged (nat (chunkLimit t)) message
                      else map (Pair 0) (chunks (nat (chunkLimit t)) (drop (nat pos) message))).
           wire c' = wire c @ map (transfer (tunId t))
                       (take k (if pos = 0 then tagged (nat (chunkLimit t)) message
                                else map (Pair 0) (chunks (nat (chunkLimit t)) (drop (nat pos) message))))
           \<and> (r = Returns None \<longrightarrow>
                k = length (if pos = 0 then tagged (nat (chunkLimit t)) message
                            else map (Pair 0) (chunks (nat (chunkLimit t)) (drop (nat pos) message))))"
  using assms
proof (induction fuel arbitrary: pos t c dl evs)
  case 0
  let ?rest = "if pos = 0 then tagged (nat (chunkLimit t)) message
               else map (Pair 0) (chunks (nat (chunkLimit t)) (drop (nat pos) message))"
  from 0 have fin: "\<not> pos < int (length message)" "c' = c" by (auto split: if_splits)
  with 0 have "?rest = []" by (auto simp: tagged_def chunks_done chunks_Nil)
  with fin show ?case by simp
next
  case (Suc fuel)
  let ?n = "nat (chunkLimit t)"
  let ?rest = "\<lambda>p. if p = 0 then tagged ?n message else map (Pair 0) (chunks ?n (drop (nat p) message))"
  show ?case
  proof (cases "pos < int (length message)")
    case False
    with Suc.prems have "c' = c" by simp
    moreover from False Suc.prems have "?rest pos = []"
      by (auto simp: tagged_def chunks_done chunks_Nil)
    ultimately show ?thesis by simp
  next
    case True
    let ?L = "int (length message)"
    let ?end1 = "if pos + chunkLimit t > ?L then ?L else pos + chunkLimit t"
    let ?tag = "if pos \<noteq> 0 then 0 else ?L"
    let ?chunk = "take ?n (drop (nat pos) message)"
    have sl: "go_slice message pos ?end1 = ?chunk"
      using Suc.prems(2) True Suc.prems(1) by (rule go_slice_chunk)
    have ok: "\<not> (pos < 0 \<or> ?end1 < pos)" using Suc.prems(1,2) True by auto
    have step: "?rest pos = (?tag, ?chunk) # map (Pair 0) (chunks ?n (drop (nat (pos + chunkLimit t)) message))"
      using Suc.prems(2) True Suc.prems(1) by (rule to_send_step)
    obtain r1 t1 c1 dl1 evs1 where
      sc: "sendChunk env ?chunk ?tag dl evs (t, c) = (r1, (t1, c1), dl1, evs1)"
      by (cases "sendChunk env ?chunk ?tag dl evs (t, c)") auto
    note k = sendChunk_keeps [OF sc]
    show ?thesis
    proof (cases "r1 = Returns None")
      case sent: True
      with Suc.prems(3) True ok sl sc
      have rec: "Send_loop fuel env message (pos + chunkLimit t1) dl1 evs1 (t1, c1) = Some (r, (t', c'), dl', evs')"
        by (simp add: Let_def)
      from k Suc.prems have p: "1 \<le> chunkLimit t1" "0 \<le> pos + chunkLimit t1" "pos + chunkLimit t1 \<noteq> 0"
        by simp_all
      from Suc.IH [OF p(1,2) rec] p(3) k
      obtain j where j: "j \<le> length (chunks ?n (drop (nat (pos + chunkLimit t)) message))"
        "wire c' = wire c1 @ map (transfer (tunId t))
                     (take j (map (Pair 0) (chunks ?n (drop (nat (pos + chunkLimit t)) message))))"
        "r = Returns None \<longrightarrow> j = length (chunks ?n (drop (nat (pos + chunkLimit t)) message))"
        by auto
      from k sent have w1: "wire c1 = wire c @ [transfer (tunId t) (?tag, ?chunk)]"
        by (simp add: transfer_def)
      have "Suc j \<le> length (?rest pos)" using j(1) by (simp only: step) simp
      moreover have "wire c' = wire c @ map (transfer (tunId t)) (take (Suc j) (?rest pos))"
        using j(2) w1 by (simp only: step) simp
      moreover have "r = Returns None \<longrightarrow> Suc j = length (?rest pos)"
        using j(3) by (simp only: step) simp
      ultimately show ?thesis by blast
    next
      case failed: False
      with Suc.prems(3) True ok sl sc have "r = r1 \<and> c' = c1"
        by (cases r1) (auto simp: Let_def split: option.splits)
      with k failed have "wire c' = wire c" "r \<noteq> Returns None" by simp_all
      then show ?thesis by (intro exI [of _ 0]) simp
    qed
  qed
qed
text \<open>
  Claim C7. For a non-empty message on a tunnel with a chunk limit of at least one,
  whatever \<^verbatim>\<open>Send\<close> hands to the connection is, in order, a prefix of the tagged chunks
  of the message, and all of them when \<^verbatim>\<open>Send\<close> returns \<^verbatim>\<open>nil\<close>. The chunks are
  consecutive pieces of the message (together they are the message), none is empty or
  longer than the chunk limit, the first is tagged with the length of the message and
  every later one with 0.
\<close>

theorem Send_splits_message:
  assumes "message \<noteq> []" and "1 \<le> chunkLimit t"
    and "Send fuel env message timeout evs (t, c) = Some (r, (t', c'), evs')"
  shows "(\<exists>k\<le>length (tagged (nat (chunkLimit t)) message).
            wire c' = wire c @ map (transfer (tunId t)) (take k (tagged (nat (chunkLimit t)) message))
            \<and> (r = Returns None \<longrightarrow> k = length (tagged (nat (chunkLimit t)) message)))
       \<and> concat (map snd (tagged (nat (chunkLimit t)) message)) = message
       \<and> (\<forall>p\<in>set (tagged (nat (chunkLimit t)) message).
             snd p \<noteq> [] \<and> int (length (snd p)) \<le> chunkLimit t)
       \<and> map fst (tagged (nat (chunkLimit t)) message)
           = int (length message) # replicate (length (tagged (nat (chunkLimit t)) message) - 1) 0"
proof (intro conjI)
  let ?n = "nat (chunkLimit t)"
  from assms(2) have n: "0 < ?n" by simp
  from assms(1,3) obtain dl' where
    "Send_loop fuel env message 0 (if timeout \<noteq> 0 then Some (late env) else None) evs (t, c)
       = Some (r, (t', c'), dl', evs')"
    by (auto simp: Send_def split: option.splits)
  from Send_loop_wire [OF assms(2) order_refl this]
  show "\<exists>k\<le>length (tagged ?n message).
            wire c' = wire c @ map (transfer (tunId t)) (take k (tagged ?n message))
            \<and> (r = Returns None \<longrightarrow> k = length (tagged ?n message))"
    by simp
  from n show "concat (map snd (tagged ?n message)) = message"
    by (simp only: map_snd_tagged concat_chunks)
  from n assms(1) show "map fst (tagged ?n message)
           = int (length message) # replicate (length (tagged ?n message) - 1) 0"
    by (rule map_fst_tagged)
  show "\<forall>p\<in>set (tagged ?n message). snd p \<noteq> [] \<and> int (length (snd p)) \<le> chunkLimit t"
  proof (rule ballI)
    fix p assume "p \<in> set (tagged ?n message)"
    then have "snd p \<in> set (map snd (tagged ?n message))" by (simp only: set_map) (rule imageI)
    then have "snd p \<in> set (chunks ?n message)" by (simp only: map_snd_tagged)
    from chunks_bounded [OF n this] assms(2)
    show "snd p \<noteq> [] \<and> int (length (snd p)) \<le> chunkLimit t" by auto
  qed
qed

text \<open>The scenario of the spec: chunk limit 4 and the ten bytes of HELLOWORLD.\<close>

theorem Send_splits_message_witness:
  "Send 3 quiet_env ''HELLOWORLD'' 0 [] ((fresh_tunnel 0)\<lparr>chunkLimit := 4, atoiSpace := 10\<rparr>, idle_conn)
     = Some (Returns None,
             ((fresh_tunnel 0)\<lparr>chunkLimit := 4, atoiSpace := 0\<rparr>,
              idle_conn\<lparr>wire := [TunnelTransfer 0 10 ''HELL'', TunnelTransfer 0 0 ''OWOR'', TunnelTransfer 0 0 ''LD'']\<rparr>),
             [])
   \<and> tagged 4 ''HELLOWORLD'' = [(10, ''HELL''), (0, ''OWOR''), (0, ''LD'')]
   \<and> map (transfer 0) (tagged 4 ''HELLOWORLD'')
     = [TunnelTransfer 0 10 ''HELL'', TunnelTransfer 0 0 ''OWOR'', TunnelTransfer 0 0 ''LD'']
   \<and> concat (map snd (tagged 4 ''HELLOWORLD'')) = ''HELLOWORLD''"
proof -
  let ?t = "(fresh_tunnel 0)\<lparr>chunkLimit := 4, atoiSpace := 10\<rparr>"
  let ?t' = "(fresh_tunnel 0)\<lparr>chunkLimit := 4, atoiSpace := 0\<rparr>"
  let ?c' = "idle_conn\<lparr>wire := [TunnelTransfer 0 10 ''HELL'', TunnelTransfer 0 0 ''OWOR'', TunnelTransfer 0 0 ''LD'']\<rparr>"
  have run: "Send 3 quiet_env ''HELLOWORLD'' 0 [] (?t, idle_conn) = Some (Returns None, (?t', ?c'), [])"
    by (simp add: eval_nat_numeral Send_def sendChunk.simps drainAllowance_def conn_send_def go_slice_def
        go_int_def fresh_tunnel_def idle_conn_def quiet_env_def tx_ok_def)
  have m: "''HELLOWORLD'' \<noteq> []" and l: "1 \<le> chunkLimit ?t" by simp_all
  have tg: "tagged 4 ''HELLOWORLD'' = [(10, ''HELL''), (0, ''OWOR''), (0, ''LD'')]"
    by (simp add: tagged_def chunks.simps)
  note th = Send_splits_message [OF m l run]
  from th [THEN conjunct2, THEN conjunct1]
  have cc: "concat (map snd (tagged 4 ''HELLOWORLD'')) = ''HELLOWORLD''" by simp
  from th [THEN conjunct1]
  have "wire ?c' = wire idle_conn @ map (transfer (tunId ?t)) (tagged (nat (chunkLimit ?t)) ''HELLOWORLD'')"
    by auto
  then have "map (transfer 0) (tagged 4 ''HELLOWORLD'')
     = [TunnelTransfer 0 10 ''HELL'', TunnelTransfer 0 0 ''OWOR'', TunnelTransfer 0 0 ''LD'']"
    by (simp add: idle_conn_def fresh_tunnel_def)
  with run tg cc show ?thesis by (simp only: simp_thms)
qed

section \<open>How often the loop of Send runs\<close>

lemma chunks_empty_iff: "chunks n xs = [] \<longleftrightarrow> n = 0 \<or> xs = []"
  by (subst chunks.simps) simp

lemma sendChunk_sent:
  assumes "tx env c (TunnelTransfer (tunId t) sz chunk) = None"
    and "int (length chunk) \<le> atoiSpace t" and "atoiSpace t \<le> max_int"
  shows "sendChunk env chunk sz dl evs (t, c) =
           (Returns None,
            (t\<lparr>atoiSpace := atoiSpace t - int (length chunk)\<rparr>,
             c\<lparr>wire := wire c @ [TunnelTransfer (tunId t) sz chunk]\<rparr>), dl, evs)"
proof -
  from assms(2,3) have "go_int (atoiSpace t - int (length chunk)) = atoiSpace t - int (length chunk)"
    by (intro go_int_id) (simp_all add: max_int_def)
  with assms(1,2) show ?thesis
    by (simp add: sendChunk_covered conn_send_def)
qed

lemma Send_loop_enough_fuel:
  assumes "1 \<le> chunkLimit t" and "0 \<le> pos"
    and "length (chunks (nat (chunkLimit t)) (drop (nat pos) message)) \<le> fuel"
  shows "Send_loop fuel env message pos dl evs (t, c) \<noteq> None"
  using assms
proof (induction fuel arbitrary: pos t c dl evs)
  case 0
  then have "drop (nat pos) message = []" by (simp add: chunks_empty_iff)
  with 0 have "\<not> pos < int (length message)" by simp
  then show ?case by simp
next
  case (Suc fuel)
  let ?n = "nat (chunkLimit t)"
  show ?case
  proof (cases "pos < int (length message)")
    case False
    then show ?thesis by simp
  next
    case True
    let ?L = "int (length message)"
    let ?end1 = "if pos + chunkLimit t > ?L then ?L else pos + chunkLimit t"
    let ?tag = "if pos \<noteq> 0 then 0 else ?L"
    let ?chunk = "take ?n (drop (nat pos) message)"
    have sl: "go_slice message pos ?end1 = ?chunk"
      using Suc.prems(2) True Suc.prems(1) by (rule go_slice_chunk)
    have ok: "\<not> (pos < 0 \<or> ?end1 < pos)" using Suc.prems(1,2) True by auto
    obtain r1 t1 c1 dl1 evs1 where
      sc: "sendChunk env ?chunk ?tag dl evs (t, c) = (r1, (t1, c1), dl1, evs1)"
      by (cases "sendChunk env ?chunk ?tag dl evs (t, c)") auto
    note k = sendChunk_keeps [OF sc]
    show ?thesis
    proof (cases "r1 = Returns None")
      case sent: True
      from Suc.prems(1,2) True have "drop (nat pos) message \<noteq> []" "0 < ?n" by simp_all
      then have "chunks ?n (drop (nat pos) message)
                 = ?chunk # chunks ?n (drop ?n (drop (nat pos) message))"
        by (intro chunks_step)
      moreover from Suc.prems(1,2) have "drop ?n (drop (nat pos) message) = drop (nat (pos + chunkLimit t)) message"
        by (simp add: nat_add_distrib add.commute)
      ultimately have "length (chunks ?n (drop (nat (pos + chunkLimit t)) message)) \<le> fuel"
        using Suc.prems(3) by simp
      with k Suc.prems(1,2)
      have "Send_loop fuel env message (pos + chunkLimit t1) dl1 evs1 (t1, c1) \<noteq> None"
        by (intro Suc.IH) simp_all
      with sent True ok sl sc show ?thesis by (simp add: Let_def)
    next
      case False
      with True ok sl sc show ?thesis
        by (cases r1) (auto simp: Let_def split: option.splits)
    qed
  qed
qed

lemma Send_loop_all_sent:
  assumes "\<forall>x m. tx env x m = None" and "1 \<le> chunkLimit t" and "0 \<le> pos"
    and "int (length (drop (nat pos) message)) \<le> atoiSpace t" and "atoiSpace t \<le> max_int"
  shows "Send_loop fuel env message pos dl evs (t, c) =
           (if fuel < length (chunks (nat (chunkLimit t)) (drop (nat pos) message)) then None
            else Some (Returns None,
                       (t\<lparr>atoiSpace := atoiSpace t - int (length (drop (nat pos) message))\<rparr>,
                        c\<lparr>wire := wire c @ map (transfer (tunId t))
                                (if pos = 0 then tagged (nat (chunkLimit t)) message
                                 else map (Pair 0) (chunks (nat (chunkLimit t)) (drop (nat pos) message)))\<rparr>),
                       dl, evs))"
  using assms(2-5)
proof (induction fuel arbitrary: pos t c)
  case 0
  let ?n = "nat (chunkLimit t)"
  show ?case
  proof (cases "pos < int (length message)")
    case True
    with 0 have "chunks ?n (drop (nat pos) message) \<noteq> []" by (simp add: chunks_empty_iff)
    with True show ?thesis by simp
  next
    case False
    then have e: "drop (nat pos) message = []" by simp
    have r0: "pos = 0 \<Longrightarrow> tagged ?n message = []"
      using False by (simp add: tagged_def chunks_Nil)
    show ?thesis using False r0 by (simp add: e chunks_Nil)
  qed
next
  case (Suc fuel)
  let ?n = "nat (chunkLimit t)"
  let ?rest = "\<lambda>p. if p = 0 then tagged ?n message else map (Pair 0) (chunks ?n (drop (nat p) message))"
  show ?case
  proof (cases "pos < int (length message)")
    case False
    then have e: "drop (nat pos) message = []" by simp
    have r0: "pos = 0 \<Longrightarrow> tagged ?n message = []"
      using False by (simp add: tagged_def chunks_Nil)
    show ?thesis using False r0 by (simp add: e chunks_Nil)
  next
    case True
    let ?L = "int (length message)"
    let ?end1 = "if pos + chunkLimit t > ?L then ?L else pos + chunkLimit t"
    define chunk where "chunk = take ?n (drop (nat pos) message)"
    define tag where "tag = (if pos \<noteq> 0 then 0 else ?L)"
    define pos' where "pos' = pos + chunkLimit t"
    define left where "left = int (length (drop (nat pos) message))"
    define left' where "left' = int (length (drop (nat pos') message))"
    define more where "more = chunks ?n (drop (nat pos') message)"
    let ?t1 = "t\<lparr>atoiSpace := atoiSpace t - int (length chunk)\<rparr>"
    let ?c1 = "c\<lparr>wire := wire c @ [TunnelTransfer (tunId t) tag chunk]\<rparr>"
    have sl: "go_slice message pos ?end1 = chunk"
      unfolding chunk_def using Suc.prems(2) True Suc.prems(1) by (rule go_slice_chunk)
    have ok: "\<not> (pos < 0 \<or> ?end1 < pos)" using Suc.prems(1,2) True by auto
    have step: "?rest pos = (tag, chunk) # map (Pair 0) more"
      unfolding chunk_def tag_def pos'_def more_def
      using Suc.prems(2) True Suc.prems(1) by (rule to_send_step)
    have dd: "drop ?n (drop (nat pos) message) = drop (nat pos') message"
      unfolding pos'_def using Suc.prems(1,2) by (simp add: nat_add_distrib add.commute)
    have "length (drop (nat pos) message) = length (chunk @ drop ?n (drop (nat pos) message))"
      unfolding chunk_def by (simp only: append_take_drop_id)
    then have split: "left = int (length chunk) + left'"
      unfolding left_def left'_def by (simp only: dd length_append of_nat_add)
    from Suc.prems(1,2) True have "drop (nat pos) message \<noteq> []" "0 < ?n" by simp_all
    then have "chunks ?n (drop (nat pos) message)
               = take ?n (drop (nat pos) message) # chunks ?n (drop ?n (drop (nat pos) message))"
      by (intro chunks_step)
    then have cnt: "length (chunks ?n (drop (nat pos) message)) = Suc (length more)"
      unfolding more_def by (simp only: dd list.size)
    from Suc.prems(3) have credit: "left \<le> atoiSpace t" unfolding left_def .
    have nn: "0 \<le> left'" unfolding left'_def by simp
    from split credit nn have cover: "int (length chunk) \<le> atoiSpace t" by linarith
    from assms(1) have "tx env c (TunnelTransfer (tunId t) tag chunk) = None" by simp
    from sendChunk_sent [OF this cover Suc.prems(4)]
    have sc: "sendChunk env chunk tag dl evs (t, c) = (Returns None, (?t1, ?c1), dl, evs)" .
    have sel: "chunkLimit ?t1 = chunkLimit t" "atoiSpace ?t1 = atoiSpace t - int (length chunk)"
      "tunId ?t1 = tunId t" "wire ?c1 = wire c @ [TunnelTransfer (tunId t) tag chunk]"
      by simp_all
    have p1: "1 \<le> chunkLimit ?t1" using Suc.prems(1) by (simp only: sel)
    have p2: "0 \<le> pos'" unfolding pos'_def using Suc.prems(1,2) by linarith
    have p3: "int (length (drop (nat pos') message)) \<le> atoiSpace ?t1"
      using split credit unfolding left'_def [symmetric] sel by linarith
    have p4: "atoiSpace ?t1 \<le> max_int"
      using Suc.prems(4) unfolding sel by linarith
    have nz: "pos' \<noteq> 0" unfolding pos'_def using Suc.prems(1,2) by linarith
    have t2: "?t1\<lparr>atoiSpace := atoiSpace ?t1 - left'\<rparr> = t\<lparr>atoiSpace := atoiSpace t - left\<rparr>"
      using split by simp
    have c2: "?c1\<lparr>wire := wire ?c1 @ map (transfer (tunId t)) (map (Pair 0) more)\<rparr>
              = c\<lparr>wire := wire c @ map (transfer (tunId t)) (?rest pos)\<rparr>"
      by (simp only: step) (simp add: transfer_def)
    have "Send_loop (Suc fuel) env message pos dl evs (t, c)
          = Send_loop fuel env message pos' dl evs (?t1, ?c1)"
      using True ok sl sc unfolding pos'_def tag_def by (simp add: Let_def)
    also from Suc.IH [OF p1 p2 p3 p4, of ?c1]
    have "\<dots> = (if fuel < length more then None
            else Some (Returns None,
                       (?t1\<lparr>atoiSpace := atoiSpace ?t1 - left'\<rparr>,
                        ?c1\<lparr>wire := wire ?c1 @ map (transfer (tunId t)) (map (Pair 0) more)\<rparr>),
                       dl, evs))"
      unfolding left'_def more_def using nz by (simp only: sel if_False)
    finally show ?thesis
      unfolding cnt Suc_less_eq t2 c2 left_def .
  qed
qed

lemma Send_loop_zero_limit:
  assumes "\<forall>x m. tx env x m = None" and "chunkLimit t = 0"
    and "0 \<le> atoiSpace t" and "atoiSpace t \<le> max_int"
    and "0 \<le> pos" and "pos < int (length message)"
  shows "Send_loop fuel env message pos dl evs (t, c) = None"
proof (induction fuel arbitrary: c)
  case 0
  from assms(6) show ?case by simp
next
  case (Suc fuel)
  let ?c1 = "c\<lparr>wire := wire c @ [TunnelTransfer (tunId t) (if pos \<noteq> 0 then 0 else int (length message)) []]\<rparr>"
  have e: "go_slice message pos pos = []" by (simp add: go_slice_def)
  from assms(1) have "tx env c (TunnelTransfer (tunId t) (if pos \<noteq> 0 then 0 else int (length message)) []) = None"
    by simp
  from sendChunk_sent [OF this _ assms(4), of dl evs] assms(3)
  have sc: "sendChunk env [] (if pos \<noteq> 0 then 0 else int (length message)) dl evs (t, c)
            = (Returns None, (t, ?c1), dl, evs)"
    by simp
  from Suc [of ?c1] assms(2,5,6) e sc show ?case by (simp add: Let_def)
qed

lemma Send_None_iff:
  "message \<noteq> [] \<Longrightarrow>
   (Send fuel env message timeout evs tc = None)
   = (Send_loop fuel env message 0 (if timeout \<noteq> 0 then Some (late env) else None) evs tc = None)"
  by (cases "Send_loop fuel env message 0 (if timeout \<noteq> 0 then Some (late env) else None) evs tc")
     (simp_all add: Send_def split: prod.splits)

text \<open>
  Claim C10. For a non-empty message and a chunk limit of at least one, the loop of
  \<^verbatim>\<open>Send\<close> ends within \<open>ceil(len(message) / chunkLimit)\<close> runs of its body whatever
  happens to the chunk sends; when every chunk send succeeds (the transport accepts every
  message and the credit covers the message) it ends after exactly that many runs, one
  transfer each, and returns \<^verbatim>\<open>nil\<close>. With a chunk limit of 0 and chunk sends that
  succeed the position never advances: no number of runs suffices, \<^verbatim>\<open>Send\<close> does not
  return.
\<close>

theorem Send_loop_runs_ceil_times:
  assumes "message \<noteq> []"
  shows "(1 \<le> chunkLimit t \<and> (length message + nat (chunkLimit t) - 1) div nat (chunkLimit t) \<le> fuel
            \<longrightarrow> Send fuel env message timeout evs (t, c) \<noteq> None)
       \<and> (1 \<le> chunkLimit t \<and> (\<forall>x m. tx env x m = None)
              \<and> int (length message) \<le> atoiSpace t \<and> atoiSpace t \<le> max_int
            \<longrightarrow> (Send fuel env message timeout evs (t, c) = None)
                   = (fuel < (length message + nat (chunkLimit t) - 1) div nat (chunkLimit t))
                \<and> ((length message + nat (chunkLimit t) - 1) div nat (chunkLimit t) \<le> fuel \<longrightarrow>
                     Send fuel env message timeout evs (t, c) =
                       Some (Returns None,
                             (t\<lparr>atoiSpace := atoiSpace t - int (length message)\<rparr>,
                              c\<lparr>wire := wire c @ map (transfer (tunId t)) (tagged (nat (chunkLimit t)) message)\<rparr>),
                             evs))
                \<and> length (tagged (nat (chunkLimit t)) message)
                     = (length message + nat (chunkLimit t) - 1) div nat (chunkLimit t))
       \<and> (chunkLimit t = 0 \<and> (\<forall>x m. tx env x m = None) \<and> 0 \<le> atoiSpace t \<and> atoiSpace t \<le> max_int
            \<longrightarrow> Send fuel env message timeout evs (t, c) = None)"
proof (intro conjI impI)
  let ?n = "nat (chunkLimit t)"
  let ?dl = "if timeout \<noteq> 0 then Some (late env) else None"
  let ?ceil = "(length message + ?n - 1) div ?n"
  {
    assume a: "1 \<le> chunkLimit t \<and> ?ceil \<le> fuel"
    then have "length (chunks ?n (drop (nat 0) message)) \<le> fuel" by (simp add: length_chunks)
    with a have "Send_loop fuel env message 0 ?dl evs (t, c) \<noteq> None"
      by (intro Send_loop_enough_fuel) simp_all
    with assms show "Send fuel env message timeout evs (t, c) \<noteq> None"
      by (simp only: Send_None_iff not_False_eq_True)
  }
  {
    assume a: "1 \<le> chunkLimit t \<and> (\<forall>x m. tx env x m = None)
                \<and> int (length message) \<le> atoiSpace t \<and> atoiSpace t \<le> max_int"
    then have len: "length (chunks ?n message) = ?ceil" by (simp add: length_chunks)
    from a have "Send_loop fuel env message 0 ?dl evs (t, c) =
           (if fuel < length (chunks ?n (drop (nat 0) message)) then None
            else Some (Returns None,
                       (t\<lparr>atoiSpace := atoiSpace t - int (length (drop (nat 0) message))\<rparr>,
                        c\<lparr>wire := wire c @ map (transfer (tunId t))
                                (if (0::int) = 0 then tagged ?n message
                                 else map (Pair 0) (chunks ?n (drop (nat 0) message)))\<rparr>),
                       ?dl, evs))"
      by (intro Send_loop_all_sent) simp_all
    then have loop: "Send_loop fuel env message 0 ?dl evs (t, c) =
           (if fuel < ?ceil then None
            else Some (Returns None,
                       (t\<lparr>atoiSpace := atoiSpace t - int (length message)\<rparr>,
                        c\<lparr>wire := wire c @ map (transfer (tunId t)) (tagged ?n message)\<rparr>),
                       ?dl, evs))"
      by (simp add: len)
    from loop assms show "(Send fuel env message timeout evs (t, c) = None) = (fuel < ?ceil)"
      by (simp add: Send_def)
    from len show "length (tagged ?n message) = ?ceil" by (simp only: length_tagged)
    assume "?ceil \<le> fuel"
    with loop assms show "Send fuel env message timeout evs (t, c) =
                       Some (Returns None,
                             (t\<lparr>atoiSpace := atoiSpace t - int (length message)\<rparr>,
                              c\<lparr>wire := wire c @ map (transfer (tunId t)) (tagged ?n message)\<rparr>),
                             evs)"
      by (simp add: Send_def)
  }
  {
    assume a: "chunkLimit t = 0 \<and> (\<forall>x m. tx env x m = None) \<and> 0 \<le> atoiSpace t \<and> atoiSpace t \<le> max_int"
    with assms have "Send_loop fuel env message 0 ?dl evs (t, c) = None"
      by (intro Send_loop_zero_limit) simp_all
    with assms show "Send fuel env message timeout evs (t, c) = None"
      by (simp add: Send_def)
  }
qed

theorem Send_loop_runs_ceil_times_witness:
  "Send 2 quiet_env ''HELLOWORLD'' 0 [] ((fresh_tunnel 0)\<lparr>chunkLimit := 4, atoiSpace := 10\<rparr>, idle_conn) = None
   \<and> Send 3 quiet_env ''HELLOWORLD'' 0 [] ((fresh_tunnel 0)\<lparr>chunkLimit := 4, atoiSpace := 10\<rparr>, idle_conn)
       = Some (Returns None,
               ((fresh_tunnel 0)\<lparr>chunkLimit := 4, atoiSpace := 0\<rparr>,
                idle_conn\<lparr>wire := map (transfer 0) (tagged 4 ''HELLOWORLD'')\<rparr>), [])
   \<and> length (tagged 4 ''HELLOWORLD'') = 3
   \<and> Send 1000 quiet_env ''HELLOWORLD'' 0 [] ((fresh_tunnel 0)\<lparr>atoiSpace := 10\<rparr>, idle_conn) = None"
proof -
  let ?t = "(fresh_tunnel 0)\<lparr>chunkLimit := 4, atoiSpace := 10\<rparr>"
  let ?z = "(fresh_tunnel 0)\<lparr>atoiSpace := 10\<rparr>"
  have m: "''HELLOWORLD'' \<noteq> []" by simp
  have a: "1 \<le> chunkLimit ?t \<and> (\<forall>x m. tx quiet_env x m = None)
           \<and> int (length ''HELLOWORLD'') \<le> atoiSpace ?t \<and> atoiSpace ?t \<le> max_int"
    by (simp add: quiet_env_def tx_ok_def max_int_def)
  have z: "chunkLimit ?z = 0 \<and> (\<forall>x m. tx quiet_env x m = None) \<and> 0 \<le> atoiSpace ?z \<and> atoiSpace ?z \<le> max_int"
    by (simp add: quiet_env_def tx_ok_def max_int_def fresh_tunnel_def)
  note th = Send_loop_runs_ceil_times [OF m, of ?t _ quiet_env 0 "[]" idle_conn,
      THEN conjunct2, THEN conjunct1, rule_format, OF a]
  note tz = Send_loop_runs_ceil_times [OF m, of ?z 1000 quiet_env 0 "[]" idle_conn,
      THEN conjunct2, THEN conjunct2, rule_format, OF z]
  from th [of 2, THEN conjunct1]
  have 1: "Send 2 quiet_env ''HELLOWORLD'' 0 [] (?t, idle_conn) = None" by simp
  from th [of 3, THEN conjunct2, THEN conjunct1]
  have 2: "Send 3 quiet_env ''HELLOWORLD'' 0 [] (?t, idle_conn)
       = Some (Returns None,
               ((fresh_tunnel 0)\<lparr>chunkLimit := 4, atoiSpace := 0\<rparr>,
                idle_conn\<lparr>wire := map (transfer 0) (tagged 4 ''HELLOWORLD'')\<rparr>), [])"
    by (simp add: fresh_tunnel_def idle_conn_def)
  from th [of 3, THEN conjunct2, THEN conjunct2]
  have 3: "length (tagged 4 ''HELLOWORLD'') = 3" by simp
  from 1 2 3 tz show ?thesis by (simp only: simp_thms)
qed

section \<open>Round trip\<close>

lemma handleTransfer_continue:
  assumes "chunkBuf r = Some \<lparr>cap = n, elems = pre\<rparr>" and "length pre + length ch \<le> n"
  shows "handleTransfer grow 0 ch (r, rc) =
           (if length pre + length ch = n
            then (Returns (), r\<lparr>chunkBuf := None, itoaBuf := itoaBuf r @ [Some \<lparr>cap = n, elems = pre @ ch\<rparr>],
                                itoaSign := True\<rparr>, rc)
            else (Returns (), r\<lparr>chunkBuf := Some \<lparr>cap = n, elems = pre @ ch\<rparr>\<rparr>, rc))"
proof -
  from assms have "go_append grow (chunkBuf r) ch = Some \<lparr>cap = n, elems = pre @ ch\<rparr>"
    by (simp add: go_append_fits)
  then show ?thesis
    by (simp add: handleTransfer.simps Let_def go_len_def go_cap_def)
qed

lemma feed_continuations:
  assumes "chunkBuf r = Some \<lparr>cap = n, elems = pre\<rparr>" and "cs \<noteq> []"
    and "\<forall>ch\<in>set cs. ch \<noteq> []" and "length pre + length (concat cs) = n"
  shows "feed grow (map (Pair 0) cs) (r, rc) =
           (Returns (), r\<lparr>chunkBuf := None,
                           itoaBuf := itoaBuf r @ [Some \<lparr>cap = n, elems = pre @ concat cs\<rparr>],
                           itoaSign := True\<rparr>, rc)"
  using assms
proof (induction cs arbitrary: r pre)
  case Nil
  then show ?case by simp
next
  case (Cons ch cs)
  from Cons.prems(4) have fits: "length pre + length ch \<le> n" by simp
  note h = handleTransfer_continue [OF Cons.prems(1) fits, of grow rc]
  show ?case
  proof (cases "cs = []")
    case True
    with Cons.prems(4) have "length pre + length ch = n" by simp
    with h True show ?thesis by simp
  next
    case False
    then obtain c1 cs1 where cs: "cs = c1 # cs1" by (cases cs) auto
    with Cons.prems(3) have "0 < length c1" by simp
    moreover from cs Cons.prems(4)
    have "length pre + length ch + (length c1 + length (concat cs1)) = n" by simp
    ultimately have more: "length pre + length ch \<noteq> n" by arith
    let ?r1 = "r\<lparr>chunkBuf := Some \<lparr>cap = n, elems = pre @ ch\<rparr>\<rparr>"
    have b: "chunkBuf ?r1 = Some \<lparr>cap = n, elems = pre @ ch\<rparr>" by simp
    from Cons.prems(3) have ne: "\<forall>x\<in>set cs. x \<noteq> []" by simp
    from Cons.prems(4) have len: "length (pre @ ch) + length (concat cs) = n" by simp
    from Cons.IH [OF b False ne len]
    have "feed grow (map (Pair 0) cs) (?r1, rc) =
            (Returns (), r\<lparr>chunkBuf := None,
                            itoaBuf := itoaBuf r @ [Some \<lparr>cap = n, elems = pre @ concat (ch # cs)\<rparr>],
                            itoaSign := True\<rparr>, rc)"
      by simp
    with h more show ?thesis by simp
  qed
qed

lemma feed_tagged:
  assumes "0 < n" and "message \<noteq> []" and "chunkBuf r = None"
  shows "feed grow (tagged n message) (r, rc) =
           (Returns (), r\<lparr>itoaBuf := itoaBuf r @ [Some \<lparr>cap = length message, elems = message\<rparr>],
                           itoaSign := True\<rparr>, rc)"
proof -
  let ?L = "length message"
  let ?first = "take n message"
  let ?later = "chunks n (drop n message)"
  have tg: "tagged n message = (int ?L, ?first) # map (Pair 0) ?later"
    using assms(1,2) by (rule tagged_step)
  have whole: "?first @ concat ?later = message"
    using assms(1) by (simp add: concat_chunks)
  have pos: "0 < int ?L" using assms(2) by simp
  have fits: "length ?first \<le> ?L" by simp
  then have ap: "go_append grow (Some \<lparr>cap = ?L, elems = []\<rparr>) ?first = Some \<lparr>cap = ?L, elems = ?first\<rparr>"
    by (simp add: go_append_fits)
  have r0: "r\<lparr>chunkBuf := None\<rparr> = r" using assms(3) by simp
  show ?thesis
  proof (cases "?later = []")
    case True
    with whole have "?first = message" by simp
    then have "length ?first = ?L" by simp
    with ap assms(3) pos True tg \<open>?first = message\<close> r0 show ?thesis
      by (simp add: handleTransfer_start Let_def go_len_def go_cap_def)
  next
    case False
    let ?r1 = "r\<lparr>chunkBuf := Some \<lparr>cap = ?L, elems = ?first\<rparr>\<rparr>"
    from False assms(1) have "drop n message \<noteq> []" by (simp add: chunks_empty_iff)
    then have short: "length ?first \<noteq> ?L" by simp
    from ap assms(3) pos short
    have first: "handleTransfer grow (int ?L) ?first (r, rc) = (Returns (), ?r1, rc)"
      by (simp add: handleTransfer_start Let_def go_len_def go_cap_def)
    have b: "chunkBuf ?r1 = Some \<lparr>cap = ?L, elems = ?first\<rparr>" by simp
    have ne: "\<forall>ch\<in>set ?later. ch \<noteq> []" using chunks_bounded [OF assms(1)] by blast
    from whole have len: "length ?first + length (concat ?later) = ?L"
      by (metis length_append)
    from feed_continuations [OF b False ne len, of grow rc] whole r0
    have "feed grow (map (Pair 0) ?later) (?r1, rc) =
            (Returns (), r\<lparr>itoaBuf := itoaBuf r @ [Some \<lparr>cap = ?L, elems = message\<rparr>],
                            itoaSign := True\<rparr>, rc)"
      by simp
    with first tg show ?thesis by simp
  qed
qed

text \<open>
  Claim C1. Let \<^verbatim>\<open>Send\<close> return \<^verbatim>\<open>nil\<close> for a message of length \<open>L > 0\<close> on a tunnel
  with chunk limit \<open>C\<close>, \<open>0 < C \<le> L\<close>. Feeding the transfers it has put on the wire, in
  order, to \<^verbatim>\<open>handleTransfer\<close> on a tunnel with no reassembly in progress makes every call
  return, pushes exactly one entry on the inbound queue, holding exactly the bytes of the
  message, raises the arrival signal, starts no allowance, and leaves the reassembly buffer
  \<^verbatim>\<open>nil\<close>.
\<close>

theorem chunk_round_trip:
  assumes "message \<noteq> []" and "0 < chunkLimit t" and "chunkLimit t \<le> int (length message)"
    and "Send fuel env message timeout evs (t, c) = Some (Returns None, (t', c'), evs')"
    and "chunkBuf r = None"
  shows "feed grow (transfers_of (drop (length (wire c)) (wire c'))) (r, rc) =
           (Returns (), r\<lparr>itoaBuf := itoaBuf r @ [Some \<lparr>cap = length message, elems = message\<rparr>],
                           itoaSign := True\<rparr>, rc)
       \<and> chunkBuf (fst (snd (feed grow (transfers_of (drop (length (wire c)) (wire c'))) (r, rc)))) = None
       \<and> transfers_of (drop (length (wire c)) (wire c')) = tagged (nat (chunkLimit t)) message"
proof -
  let ?n = "nat (chunkLimit t)"
  from assms(2) have n: "0 < ?n" and l: "1 \<le> chunkLimit t" by simp_all
  from assms(1,4) obtain dl' where
    "Send_loop fuel env message 0 (if timeout \<noteq> 0 then Some (late env) else None) evs (t, c)
       = Some (Returns None, (t', c'), dl', evs')"
    by (auto simp: Send_def split: option.splits)
  from Send_loop_wire [OF l order_refl this]
  have "wire c' = wire c @ map (transfer (tunId t)) (tagged ?n message)" by simp
  then have tr: "transfers_of (drop (length (wire c)) (wire c')) = tagged ?n message"
    by (simp add: transfers_of_transfer)
  note f = feed_tagged [OF n assms(1,5), of grow rc]
  from f tr assms(5) show ?thesis by simp
qed

theorem chunk_round_trip_witness:
  "feed grow_exact
     (transfers_of (drop (length (wire idle_conn))
        (wire (idle_conn\<lparr>wire := [TunnelTransfer 0 10 ''HELL'', TunnelTransfer 0 0 ''OWOR'', TunnelTransfer 0 0 ''LD'']\<rparr>))))
     (fresh_tunnel 1, idle_conn)
   = (Returns (), (fresh_tunnel 1)\<lparr>itoaBuf := [Some \<lparr>cap = 10, elems = ''HELLOWORLD''\<rparr>], itoaSign := True\<rparr>, idle_conn)
   \<and> Send 3 quiet_env ''HELLOWORLD'' 0 [] ((fresh_tunnel 0)\<lparr>chunkLimit := 4, atoiSpace := 10\<rparr>, idle_conn)
     = Some (Returns None,
             ((fresh_tunnel 0)\<lparr>chunkLimit := 4, atoiSpace := 0\<rparr>,
              idle_conn\<lparr>wire := [TunnelTransfer 0 10 ''HELL'', TunnelTransfer 0 0 ''OWOR'', TunnelTransfer 0 0 ''LD'']\<rparr>),
             [])"
proof -
  let ?t = "(fresh_tunnel 0)\<lparr>chunkLimit := 4, atoiSpace := 10\<rparr>"
  let ?t' = "(fresh_tunnel 0)\<lparr>chunkLimit := 4, atoiSpace := 0\<rparr>"
  let ?c' = "idle_conn\<lparr>wire := [TunnelTransfer 0 10 ''HELL'', TunnelTransfer 0 0 ''OWOR'', TunnelTransfer 0 0 ''LD'']\<rparr>"
  have run: "Send 3 quiet_env ''HELLOWORLD'' 0 [] (?t, idle_conn) = Some (Returns None, (?t', ?c'), [])"
    by (simp add: eval_nat_numeral Send_def sendChunk.simps drainAllowance_def conn_send_def go_slice_def
        go_int_def fresh_tunnel_def idle_conn_def quiet_env_def tx_ok_def)
  have m: "''HELLOWORLD'' \<noteq> []" and p: "0 < chunkLimit ?t"
    and le: "chunkLimit ?t \<le> int (length ''HELLOWORLD'')" and b: "chunkBuf (fresh_tunnel 1) = None"
    by (simp_all add: fresh_tunnel_def)
  from chunk_round_trip [OF m p le run b, of grow_exact idle_conn, THEN conjunct1] run
  show ?thesis by (simp add: fresh_tunnel_def)
qed

end
